theory Spec2Isabelle
  imports Main "HOL-Library.Word" "HOL-Library.Signed_Division"
begin

section \<open>The Split kernel of tensorflow/core/kernels/split\_op.cc\<close>

text \<open>
  A shallow embedding of \<^verbatim>\<open>SplitOpBase\<close>, \<^verbatim>\<open>SplitOpCPU\<close> and
  \<^verbatim>\<open>SplitOpGPU\<close>. The C++ types \<^verbatim>\<open>int32\<close> and \<^verbatim>\<open>int64\<close> are
  32-bit and 64-bit words read as two's complement; a narrowing conversion keeps the
  low bits, a widening one extends the sign, and signed multiplication wraps.
\<close>

subsection \<open>Machine integers\<close>

type_synonym int32 = "32 word"
type_synonym int64 = "64 word"

text \<open>C++ \<^verbatim>\<open>/\<close> and \<^verbatim>\<open>%\<close> on signed operands truncate towards zero.\<close>

definition cdiv :: "'a::len word \<Rightarrow> 'a word \<Rightarrow> 'a word" where
  "cdiv a b = word_of_int (sint a sdiv sint b)"

definition crem :: "'a::len word \<Rightarrow> 'a word \<Rightarrow> 'a word" where
  "crem a b = word_of_int (sint a smod sint b)"

subsection \<open>TensorShape\<close>

text \<open>
  Modelled from the spec: \<^verbatim>\<open>TensorShape\<close> is declared in tensor\_shape.h, which
  is not in this file. A shape is the ordered sequence of its \<^verbatim>\<open>int64\<close> dimension
  sizes.
\<close>

type_synonym TensorShape = "int64 list"

text \<open>Modelled from the spec: \<^verbatim>\<open>TensorShape::dims()\<close> is the rank.\<close>

definition dims :: "TensorShape \<Rightarrow> int" where
  "dims s = int (length s)"

text \<open>
  Modelled from the spec: \<^verbatim>\<open>TensorShape::dim_size(i)\<close> reads one size. Every call
  below is made with an index the kernel has validated or a loop has bounded by the
  rank.
\<close>

definition dim_size :: "TensorShape \<Rightarrow> nat \<Rightarrow> int64" where
  "dim_size s i = s ! i"

text \<open>
  Modelled from the spec: \<^verbatim>\<open>TensorShape::set_dim\<close> overwrites one size; the kernel
  applies it to a copy of the input shape.
\<close>

definition set_dim :: "TensorShape \<Rightarrow> nat \<Rightarrow> int64 \<Rightarrow> TensorShape" where
  "set_dim s i v = s[i := v]"

text \<open>The invariant of a shape: no dimension size is negative.\<close>

definition valid_shape :: "TensorShape \<Rightarrow> bool" where
  "valid_shape s = list_all (\<lambda>d. 0 \<le> sint d) s"

text \<open>The mathematical product of a run of dimension sizes.\<close>

definition dims_product :: "int64 list \<Rightarrow> int" where
  "dims_product ds = prod_list (map sint ds)"

subsection \<open>SplitOpBase::SetDims\<close>

text \<open>
  \<^verbatim>\<open>prefix_dim_size *= input_shape.dim_size(i)\<close> has an \<^verbatim>\<open>int32\<close> on the left and an
  \<^verbatim>\<open>int64\<close> on the right: the accumulator is sign-extended, the product is taken in
  64 bits, and the assignment keeps its low 32 bits. The loop counters are
  \<^verbatim>\<open>int\<close>s that stay between 0 and the rank.
\<close>

definition mul_into_int32 :: "int32 \<Rightarrow> int64 \<Rightarrow> int32" where
  "mul_into_int32 acc d = ucast ((scast acc :: int64) * d)"

definition SetDims :: "TensorShape \<Rightarrow> int32 \<Rightarrow> int32 \<times> int32 \<times> int32" where
  "SetDims input_shape split_dim =
     (let prefix_dim_size =
            fold (\<lambda>i acc. mul_into_int32 acc (dim_size input_shape i))
              [0 ..< nat (sint split_dim)] 1;
          split_dim_size = (ucast (dim_size input_shape (nat (sint split_dim))) :: int32);
          suffix_dim_size =
            fold (\<lambda>i acc. mul_into_int32 acc (dim_size input_shape i))
              [nat (sint split_dim + 1) ..< nat (dims input_shape)] 1
      in (prefix_dim_size, split_dim_size, suffix_dim_size))"

subsection \<open>Tensors, buffers and the kernel context\<close>

datatype Status = OK | InvalidArgument | AllocationFailure | Internal

text \<open>
  Modelled from the spec: \<^verbatim>\<open>Tensor\<close> is declared in tensor.h, which is not in this
  file. A tensor is a view of a contiguous row-major buffer: the shape, the buffer it reads (\<open>buf\<close>, an index into
  the heap of the context) and the cell of that buffer where the view starts
  (\<open>base\<close>). Two tensors with the same \<open>buf\<close> share storage. A cell holds
  \<open>Some v\<close> once written; \<open>None\<close> is memory that was allocated and never written.
\<close>

record Tensor =
  shape :: TensorShape
  buf :: nat
  base :: nat

definition num_elements :: "TensorShape \<Rightarrow> nat" where
  "num_elements s = nat (dims_product s)"

type_synonym DSizes = "int64 \<times> int64 \<times> int64"

text \<open>One invocation of the strided-copy primitive, with its arguments.\<close>

datatype SplitCall = SplitCall
  (call_result: "Tensor \<times> DSizes") (call_input: "Tensor \<times> DSizes")
  (call_indices: DSizes) (call_sizes: DSizes)

text \<open>
  The operations a kernel enqueues on the device stream: the asynchronous copy of
  \<open>n\<close> pointer cells from one temporary to another, a callback that drops one
  reference to a temporary, and the launch of the split kernel.
\<close>

datatype StreamOp =
    ThenMemcpy nat nat nat
  | ThenExecuteUnref nat
  | SplitOpGPULaunch Tensor int32 int32 int32 int32 nat

text \<open>
  A temporary tensor holding output pointers (buffer indices), with the number of
  references that keep it alive.
\<close>

record TempTensor =
  ptrs :: "nat option list"
  refs :: nat

text \<open>
  Modelled from the spec: \<^verbatim>\<open>OpKernelContext\<close> is declared in op\_kernel.h, which is
  not in this file. The context of one kernel invocation: the two inputs (\<open>input0\<close> is the scalar
  \<^verbatim>\<open>split_dim\<close>, \<open>input1\<close> the tensor to split), the outputs set so far, the
  status, the heap of buffers, and the allocator, which grants or refuses the
  \<open>n\<close>-th request (\<open>alloc_ok\<close>). \<open>copies\<close> lists the invocations of the
  strided-copy primitive, \<open>stream\<close> the operations enqueued on the device stream.
\<close>

record 'a OpKernelContext =
  input0 :: int32
  input1 :: Tensor
  outputs :: "nat \<rightharpoonup> Tensor"
  status :: Status
  heap :: "'a option list list"
  allocs :: nat
  alloc_ok :: "nat \<Rightarrow> bool"
  copies :: "SplitCall list"
  temps :: "TempTensor list"
  stream :: "StreamOp list"
  stream_ok :: bool

text \<open>The cells a tensor views.\<close>

definition tensor_cells :: "'a OpKernelContext \<Rightarrow> Tensor \<Rightarrow> 'a option list" where
  "tensor_cells c t = take (num_elements (shape t)) (drop (base t) (heap c ! buf t))"

text \<open>
  Modelled from the spec: the macros \<^verbatim>\<open>OP_REQUIRES\<close> and \<^verbatim>\<open>OP_REQUIRES_OK\<close> of
  op\_kernel.h report an error through the status of the context; the caller then
  returns.
\<close>

definition CtxFailure :: "Status \<Rightarrow> 'a OpKernelContext \<Rightarrow> 'a OpKernelContext" where
  "CtxFailure s c = c\<lparr>status := s\<rparr>"

text \<open>
  Modelled from the spec: \<^verbatim>\<open>OpKernelContext::set_output\<close> makes a tensor output
  \<open>i\<close>; the output views the buffer that the tensor views.
\<close>

definition set_output :: "nat \<Rightarrow> Tensor \<Rightarrow> 'a OpKernelContext \<Rightarrow> 'a OpKernelContext" where
  "set_output i t c = c\<lparr>outputs := (outputs c)(i \<mapsto> t)\<rparr>"

text \<open>
  Modelled from the spec: \<^verbatim>\<open>OpKernelContext::allocate_output\<close> gives a fresh buffer
  of unwritten cells for the shape and makes it output \<open>i\<close>, unless the allocator
  refuses, which is an allocation failure.
\<close>

definition allocate_output ::
  "nat \<Rightarrow> TensorShape \<Rightarrow> 'a OpKernelContext \<Rightarrow> Status + Tensor \<times> 'a OpKernelContext" where
  "allocate_output i s c =
     (if alloc_ok c (allocs c)
      then let t = \<lparr>shape = s, buf = length (heap c), base = 0\<rparr>
           in Inr (t, c\<lparr>outputs := (outputs c)(i \<mapsto> t),
                        heap := heap c @ [replicate (num_elements s) None],
                        allocs := Suc (allocs c)\<rparr>)
      else Inl AllocationFailure)"

text \<open>
  Modelled from the spec: \<^verbatim>\<open>Tensor::Slice\<close> is not in this file. The slice of the
  first dimension from row \<open>start\<close> to row \<open>limit\<close> is a view of the same buffer,
  offset by \<open>start\<close> rows.
\<close>

definition Slice :: "Tensor \<Rightarrow> int64 \<Rightarrow> int64 \<Rightarrow> Tensor" where
  "Slice t start limit =
     t\<lparr>shape := (limit - start) # tl (shape t),
       base := base t + nat (sint start) * num_elements (tl (shape t))\<rparr>"

subsection \<open>The strided-copy primitive\<close>

text \<open>Reading cell \<open>k\<close> of a buffer; a cell beyond its end reads as unwritten.\<close>

definition rd :: "'a option list \<Rightarrow> nat \<Rightarrow> 'a option" where
  "rd xs k = (if k < length xs then xs ! k else None)"

text \<open>An \<^verbatim>\<open>Eigen::DenseIndex\<close> read as a position.\<close>

definition ix :: "int64 \<Rightarrow> nat" where
  "ix v = nat (sint v)"

text \<open>
  The cells of the block of a row-major 3D view with dimensions \<open>(d0, d1, d2)\<close>
  that starts at \<open>(i0, i1, i2)\<close> and has extents \<open>(e0, e1, e2)\<close>, in row-major
  order of the block.
\<close>

definition slice3 :: "'a option list \<Rightarrow> DSizes \<Rightarrow> DSizes \<Rightarrow> DSizes \<Rightarrow> 'a option list" where
  "slice3 xs d i e =
     (case (d, i, e) of ((d0, d1, d2), (i0, i1, i2), (e0, e1, e2)) \<Rightarrow>
        map (\<lambda>k. rd xs (((ix i0 + k div (ix e1 * ix e2)) * ix d1
                          + (ix i1 + k div ix e2 mod ix e1)) * ix d2
                         + (ix i2 + k mod ix e2)))
          [0 ..< ix e0 * ix e1 * ix e2])"

text \<open>Writing the cells \<open>vs\<close> into a buffer from position \<open>b\<close> on.\<close>

definition write_at :: "nat \<Rightarrow> 'b list \<Rightarrow> 'b list \<Rightarrow> 'b list" where
  "write_at b vs old = take b old @ vs @ drop (b + length vs) old"

text \<open>
  Modelled from the spec: \<^verbatim>\<open>functor::Split<CPUDevice, T>\<close> is declared in
  split\_lib.h, which is not in this file. It copies, element by element, the block
  of the 3D input view given by \<open>slice_indices\<close> and \<open>slice_sizes\<close> to the 3D
  output view, from \<open>(0, 0, 0)\<close> with the same extents.
\<close>

definition Split_CPU ::
  "Tensor \<times> DSizes \<Rightarrow> Tensor \<times> DSizes \<Rightarrow> DSizes \<Rightarrow> DSizes \<Rightarrow>
   'a OpKernelContext \<Rightarrow> 'a OpKernelContext" where
  "Split_CPU res inp idx szs c =
     (let vs = slice3 (drop (base (fst inp)) (heap c ! buf (fst inp))) (snd inp) idx szs
      in c\<lparr>heap := (heap c)[buf (fst res) :=
                      write_at (base (fst res)) vs (heap c ! buf (fst res))],
           copies := copies c @ [SplitCall res inp idx szs]\<rparr>)"

subsection \<open>SplitOpBase::ComputeEasyCases\<close>

text \<open>
  \<^verbatim>\<open>IsInnerDimsSizeAligned<T>\<close> comes from ops\_util.h, which is not in this file:
  it is a parameter of the kernel. \<open>num_outputs\<close> is the kernel's number of outputs.
  The result pairs the context with the flag \<^verbatim>\<open>*done\<close>, which the caller
  initialises to false.
\<close>

definition slice_delta :: "TensorShape \<Rightarrow> int32 \<Rightarrow> int64" where
  "slice_delta input_shape num_split = cdiv (dim_size input_shape 0) (scast num_split)"

definition ComputeEasyCases ::
  "(TensorShape \<Rightarrow> bool) \<Rightarrow> int32 \<Rightarrow> 'a OpKernelContext \<Rightarrow> 'a OpKernelContext \<times> bool" where
  "ComputeEasyCases IsInnerDimsSizeAligned num_outputs context =
     (let split_dim = input0 context;
          num_split = num_outputs;
          input = input1 context;
          input_shape = shape input
      in if \<not> (0 \<le> sint split_dim \<and> sint split_dim < dims input_shape)
         then (CtxFailure InvalidArgument context, False)
         else if \<not> 0 < sint num_split
         then (CtxFailure InvalidArgument context, False)
         else if crem (dim_size input_shape (nat (sint split_dim))) (scast num_split) \<noteq> 0
         then (CtxFailure InvalidArgument context, False)
         else if num_split = 1
         then (set_output 0 input context, True)
         else if split_dim = 0 \<and> IsInnerDimsSizeAligned input_shape
         then (let delta = slice_delta input_shape num_split
               in (fold (\<lambda>i. set_output i
                            (Slice input (of_nat i * delta) ((of_nat i + 1) * delta)))
                     [0 ..< nat (sint num_split)] context, True))
         else (context, False))"

subsection \<open>SplitOpCPU::Compute\<close>

text \<open>
  The loop over the outputs. \<open>indices\<close> is the start of the next slice; an
  allocation that fails ends the whole call (\<^verbatim>\<open>OP_REQUIRES_OK\<close>).
\<close>

fun cpu_loop ::
  "Tensor \<times> DSizes \<Rightarrow> TensorShape \<Rightarrow> int32 \<times> int32 \<times> int32 \<Rightarrow> DSizes \<Rightarrow>
   nat list \<Rightarrow> DSizes \<Rightarrow> 'a OpKernelContext \<Rightarrow> 'a OpKernelContext" where
  "cpu_loop input_reshaped output_shape dsz sizes [] indices context = context"
| "cpu_loop input_reshaped output_shape dsz sizes (i # rest) indices context =
     (case dsz of (prefix_dim_size, split_dim_output_size, suffix_dim_size) \<Rightarrow>
      (case allocate_output i output_shape context of
         Inl s \<Rightarrow> CtxFailure s context
       | Inr (result, context1) \<Rightarrow>
           let context2 =
                 (if 0 < sint (prefix_dim_size * split_dim_output_size * suffix_dim_size)
                  then Split_CPU
                         (result, (scast prefix_dim_size, scast split_dim_output_size,
                                   scast suffix_dim_size))
                         input_reshaped indices sizes context1
                  else context1)
           in cpu_loop input_reshaped output_shape dsz sizes rest
                (fst indices, fst (snd indices) + scast split_dim_output_size,
                 snd (snd indices))
                context2))"

definition Compute_CPU ::
  "(TensorShape \<Rightarrow> bool) \<Rightarrow> int32 \<Rightarrow> 'a OpKernelContext \<Rightarrow> 'a OpKernelContext" where
  "Compute_CPU IsInnerDimsSizeAligned num_outputs context0 =
     (case ComputeEasyCases IsInnerDimsSizeAligned num_outputs context0 of
        (context, done) \<Rightarrow>
          if status context \<noteq> OK \<or> done then context
          else
            let split_dim = input0 context;
                num_split = num_outputs;
                input = input1 context;
                input_shape = shape input
            in (case SetDims input_shape split_dim of
                  (prefix_dim_size, split_dim_size, suffix_dim_size) \<Rightarrow>
                    let input_reshaped =
                          (input, (scast prefix_dim_size, scast split_dim_size,
                                   scast suffix_dim_size));
                        split_dim_output_size = cdiv split_dim_size num_split;
                        output_shape =
                          set_dim input_shape (nat (sint split_dim))
                            (scast split_dim_output_size);
                        sizes = (scast prefix_dim_size, scast split_dim_output_size,
                                 scast suffix_dim_size)
                    in cpu_loop input_reshaped output_shape
                         (prefix_dim_size, split_dim_output_size, suffix_dim_size) sizes
                         [0 ..< nat (sint num_split)] (0, 0, 0) context))"

subsection \<open>SplitOpGPU::Compute\<close>

text \<open>
  Modelled from the spec: \<^verbatim>\<open>OpKernelContext::allocate_temp\<close> gives a temporary, held
  by the local \<^verbatim>\<open>Tensor\<close> that receives it (one reference), unless the allocator
  refuses. The kernel asks for \<^verbatim>\<open>sizeof(T*) * num_split\<close> bytes and uses them as an
  array of \<^verbatim>\<open>num_split\<close> pointers, so the size \<open>n\<close> counts pointer cells. The
  result is the index of the temporary.
\<close>

definition allocate_temp ::
  "nat \<Rightarrow> 'a OpKernelContext \<Rightarrow> Status + nat \<times> 'a OpKernelContext" where
  "allocate_temp n c =
     (if alloc_ok c (allocs c)
      then Inr (length (temps c),
                c\<lparr>temps := temps c @ [\<lparr>ptrs = replicate n None, refs = 1\<rparr>],
                  allocs := Suc (allocs c)\<rparr>)
      else Inl AllocationFailure)"

text \<open>
  Modelled from the spec: \<^verbatim>\<open>TensorReference\<close> is declared in tensor\_reference.h,
  which is not in this file. Constructing one takes a reference to the buffer of a
  temporary.
\<close>

definition Ref :: "nat \<Rightarrow> 'a OpKernelContext \<Rightarrow> 'a OpKernelContext" where
  "Ref t c = c\<lparr>temps := (temps c)[t := (temps c ! t)\<lparr>refs := Suc (refs (temps c ! t))\<rparr>]\<rparr>"

text \<open>
  Modelled from the spec: \<^verbatim>\<open>TensorReference::Unref\<close>, and the destructor of a local
  \<^verbatim>\<open>Tensor\<close>, drop one reference. A temporary with no reference left has been
  released.
\<close>

definition Unref :: "nat \<Rightarrow> 'a OpKernelContext \<Rightarrow> 'a OpKernelContext" where
  "Unref t c = c\<lparr>temps := (temps c)[t := (temps c ! t)\<lparr>refs := refs (temps c ! t) - 1\<rparr>]\<rparr>"

text \<open>
  \<^verbatim>\<open>output_ptrs_on_host_arr[i] = result->flat<T>().data()\<close>: the data pointer of an
  output is the index of its buffer.
\<close>

definition set_ptr :: "nat \<Rightarrow> nat \<Rightarrow> nat \<Rightarrow> 'a OpKernelContext \<Rightarrow> 'a OpKernelContext" where
  "set_ptr t i p c =
     c\<lparr>temps := (temps c)[t := (temps c ! t)\<lparr>ptrs := (ptrs (temps c ! t))[i := Some p]\<rparr>]\<rparr>"

text \<open>
  The loop that allocates every output and records its data pointer in the host
  array. The flag of the result is false when an allocation failed and
  \<^verbatim>\<open>OP_REQUIRES_OK\<close> returned.
\<close>

fun gpu_loop ::
  "TensorShape \<Rightarrow> nat \<Rightarrow> nat list \<Rightarrow> 'a OpKernelContext \<Rightarrow> 'a OpKernelContext \<times> bool" where
  "gpu_loop output_shape output_ptrs_on_host [] context = (context, True)"
| "gpu_loop output_shape output_ptrs_on_host (i # rest) context =
     (case allocate_output i output_shape context of
        Inl s \<Rightarrow> (CtxFailure s context, False)
      | Inr (result, context1) \<Rightarrow>
          gpu_loop output_shape output_ptrs_on_host rest
            (set_ptr output_ptrs_on_host i (buf result) context1))"

text \<open>
  What the host does once the outputs are allocated and not empty, one action after
  the other: it takes a reference to the host array, enqueues the copy of the array
  to the device, registers the callback that drops the reference, launches the
  kernel, checks the stream and returns, which destroys the two local tensors.
\<close>

datatype HostAct = TakeRef nat | Enqueue StreamOp | CheckStream | DropLocal nat

definition host_act :: "HostAct \<Rightarrow> 'a OpKernelContext \<Rightarrow> 'a OpKernelContext" where
  "host_act a c =
     (case a of
        TakeRef t \<Rightarrow> Ref t c
      | Enqueue op \<Rightarrow> c\<lparr>stream := stream c @ [op]\<rparr>
      | CheckStream \<Rightarrow> if stream_ok c then c else CtxFailure Internal c
      | DropLocal t \<Rightarrow> Unref t c)"

definition gpu_launch_acts ::
  "Tensor \<Rightarrow> int32 \<Rightarrow> int32 \<times> int32 \<times> int32 \<Rightarrow> nat \<Rightarrow> nat \<Rightarrow> nat \<Rightarrow> HostAct list" where
  "gpu_launch_acts input num_split d output_ptrs_on_host output_ptrs_on_gpu n =
     (case d of (prefix_dim_size, split_dim_size, suffix_dim_size) \<Rightarrow>
        [TakeRef output_ptrs_on_host,
         Enqueue (ThenMemcpy output_ptrs_on_gpu output_ptrs_on_host n),
         Enqueue (ThenExecuteUnref output_ptrs_on_host),
         Enqueue (SplitOpGPULaunch input num_split prefix_dim_size split_dim_size
                    suffix_dim_size output_ptrs_on_gpu),
         CheckStream,
         DropLocal output_ptrs_on_gpu,
         DropLocal output_ptrs_on_host])"

definition Compute_GPU ::
  "(TensorShape \<Rightarrow> bool) \<Rightarrow> int32 \<Rightarrow> 'a OpKernelContext \<Rightarrow> 'a OpKernelContext" where
  "Compute_GPU IsInnerDimsSizeAligned num_outputs context0 =
     (case ComputeEasyCases IsInnerDimsSizeAligned num_outputs context0 of
        (context, done) \<Rightarrow>
          if status context \<noteq> OK \<or> done then context
          else
            let split_dim = input0 context;
                num_split = num_outputs;
                input = input1 context;
                input_shape = shape input
            in (case SetDims input_shape split_dim of
                  (prefix_dim_size, split_dim_size, suffix_dim_size) \<Rightarrow>
                    let split_dim_output_size = cdiv split_dim_size num_split;
                        output_shape =
                          set_dim input_shape (nat (sint split_dim))
                            (scast split_dim_output_size);
                        n = nat (sint num_split)
                    in (case allocate_temp n context of
                          Inl s \<Rightarrow> CtxFailure s context
                        | Inr (output_ptrs_on_host, context1) \<Rightarrow>
                       (case allocate_temp n context1 of
                          Inl s \<Rightarrow> Unref output_ptrs_on_host (CtxFailure s context1)
                        | Inr (output_ptrs_on_gpu, context2) \<Rightarrow>
                       (case gpu_loop output_shape output_ptrs_on_host [0 ..< n] context2 of
                          (context3, False) \<Rightarrow>
                            Unref output_ptrs_on_host (Unref output_ptrs_on_gpu context3)
                        | (context3, True) \<Rightarrow>
                            if prefix_dim_size * split_dim_output_size * suffix_dim_size = 0
                            then Unref output_ptrs_on_host
                                   (Unref output_ptrs_on_gpu context3)
                            else fold host_act
                                   (gpu_launch_acts input num_split
                                      (prefix_dim_size, split_dim_size, suffix_dim_size)
                                      output_ptrs_on_host output_ptrs_on_gpu n)
                                   context3)))))"

subsection \<open>The device stream\<close>

text \<open>
  Modelled from the spec: the stream, the event manager and the kernel
  \<^verbatim>\<open>SplitOpGPULaunch<T>::Run\<close> are not in this file. The operations of a stream
  execute in the order of their enqueueing. The copy reads its source when it
  executes: a source that has been released by then yields unwritten cells. The
  kernel writes, through the \<open>i\<close>-th pointer of the device array, the block of the
  3D input view that starts at \<open>(0, i \<sqdot> per_split, 0)\<close> with extents
  \<open>(prefix, per_split, suffix)\<close>, where \<open>per_split = split_dim_size / num_split\<close>.
\<close>

definition kernel_write ::
  "Tensor \<Rightarrow> int32 \<Rightarrow> int32 \<Rightarrow> int32 \<Rightarrow> int32 \<Rightarrow> nat option list \<Rightarrow> nat \<Rightarrow>
   'a OpKernelContext \<Rightarrow> 'a OpKernelContext" where
  "kernel_write input num_split prefix_dim_size split_dim_size suffix_dim_size ps i c =
     (let per_split = cdiv split_dim_size num_split;
          vs = slice3 (drop (base input) (heap c ! buf input))
                 (scast prefix_dim_size, scast split_dim_size, scast suffix_dim_size)
                 (0, of_nat i * scast per_split, 0)
                 (scast prefix_dim_size, scast per_split, scast suffix_dim_size)
      in (case rd ps i of
            None \<Rightarrow> c
          | Some b \<Rightarrow> c\<lparr>heap := (heap c)[b := write_at 0 vs (heap c ! b)]\<rparr>))"

text \<open>
  Modelled from the spec: what the device does when it executes one operation of the
  stream.
\<close>

definition exec_op :: "StreamOp \<Rightarrow> 'a OpKernelContext \<Rightarrow> 'a OpKernelContext" where
  "exec_op op c =
     (case op of
        ThenMemcpy dst src n \<Rightarrow>
          let from = (if 0 < refs (temps c ! src) then take n (ptrs (temps c ! src))
                      else replicate n None)
          in c\<lparr>temps := (temps c)[dst := (temps c ! dst)
                           \<lparr>ptrs := write_at 0 from (ptrs (temps c ! dst))\<rparr>]\<rparr>
      | ThenExecuteUnref t \<Rightarrow> Unref t c
      | SplitOpGPULaunch input num_split prefix_dim_size split_dim_size suffix_dim_size q \<Rightarrow>
          fold (kernel_write input num_split prefix_dim_size split_dim_size suffix_dim_size
                  (ptrs (temps c ! q)))
            [0 ..< nat (sint num_split)] c)"


text \<open>
  Modelled from the spec: the host and the device run side by side; the calling
  thread does not block except to enqueue. A state pairs the actions the host has
  still to do with the context; a step is the next host action, or the execution of
  the operation at the head of the stream.
\<close>

inductive gpu_step ::
  "HostAct list \<times> 'a OpKernelContext \<Rightarrow> HostAct list \<times> 'a OpKernelContext \<Rightarrow> bool" where
  host: "gpu_step (a # acts, c) (acts, host_act a c)"
| device: "stream c = op # ops \<Longrightarrow> gpu_step (acts, c) (acts, exec_op op (c\<lparr>stream := ops\<rparr>))"

inductive gpu_reach ::
  "HostAct list \<times> 'a OpKernelContext \<Rightarrow> HostAct list \<times> 'a OpKernelContext \<Rightarrow> bool" where
  start: "gpu_reach s s"
| step: "gpu_reach s t \<Longrightarrow> gpu_step t u \<Longrightarrow> gpu_reach s u"

subsection \<open>Valid invocations\<close>

text \<open>
  The preconditions as the specification words them: \<open>0 \<le> split_dim < rank\<close>,
  \<open>num_split > 0\<close> and \<open>dim_size(split_dim) % num_split = 0\<close>.
\<close>

definition valid_split :: "int32 \<Rightarrow> 'a OpKernelContext \<Rightarrow> bool" where
  "valid_split num_split c =
     (0 \<le> sint (input0 c) \<and> sint (input0 c) < dims (shape (input1 c))
      \<and> 0 < sint num_split
      \<and> sint (dim_size (shape (input1 c)) (nat (sint (input0 c)))) smod sint num_split = 0)"

text \<open>
  A context as a kernel receives it: no error yet, and an input whose shape has no
  negative size and whose cells all lie in a buffer of the heap.
\<close>

definition wf_context :: "'a OpKernelContext \<Rightarrow> bool" where
  "wf_context c =
     (status c = OK \<and> valid_shape (shape (input1 c))
      \<and> buf (input1 c) < length (heap c)
      \<and> base (input1 c) + num_elements (shape (input1 c))
            \<le> length (heap c ! buf (input1 c)))"

subsection \<open>What the collapsed sizes should be\<close>

text \<open>
  The sizes of the 3-axis view as the specification words them: the product of the
  dimension sizes before the split axis, and the product of those after it.
\<close>

definition prefix_size :: "TensorShape \<Rightarrow> nat \<Rightarrow> int" where
  "prefix_size s k = dims_product (take k s)"

definition suffix_size :: "TensorShape \<Rightarrow> nat \<Rightarrow> int" where
  "suffix_size s k = dims_product (drop (Suc k) s)"

definition fits_int32 :: "int \<Rightarrow> bool" where
  "fits_int32 v = (- (2 ^ 31) \<le> v \<and> v < 2 ^ 31)"

subsection \<open>A fresh context\<close>

text \<open>
  The context of a kernel that is about to run on one input tensor: the tensor views
  the whole of the only buffer, nothing has been output, allocated or enqueued, and
  the allocator grants every request.
\<close>

definition context_of :: "TensorShape \<Rightarrow> int32 \<Rightarrow> 'a list \<Rightarrow> 'a OpKernelContext" where
  "context_of s d xs =
     \<lparr>input0 = d, input1 = \<lparr>shape = s, buf = 0, base = 0\<rparr>, outputs = Map.empty,
      status = OK, heap = [map Some xs], allocs = 0, alloc_ok = (\<lambda>_. True), copies = [],
      temps = [], stream = [], stream_ok = True\<rparr>"

subsection \<open>The general path, as sizes and cells\<close>

text \<open>
  The tensor that the \<open>q\<close>-th allocation after the state \<open>c\<close> returns, and the
  cells of a fresh buffer after one invocation of the strided-copy primitive.
\<close>

definition fresh_output :: "TensorShape \<Rightarrow> 'a OpKernelContext \<Rightarrow> nat \<Rightarrow> Tensor" where
  "fresh_output oshape c q = \<lparr>shape = oshape, buf = length (heap c) + q, base = 0\<rparr>"

definition copied_cells ::
  "'a OpKernelContext \<Rightarrow> Tensor \<times> DSizes \<Rightarrow> TensorShape \<Rightarrow> DSizes \<Rightarrow> DSizes \<Rightarrow> 'a option list" where
  "copied_cells c inp oshape idx sizes =
     write_at 0 (slice3 (drop (base (fst inp)) (heap c ! buf (fst inp))) (snd inp) idx sizes)
       (replicate (num_elements oshape) None)"

text \<open>The invocations that neither easy case serves.\<close>

definition general_path :: "(TensorShape \<Rightarrow> bool) \<Rightarrow> int32 \<Rightarrow> 'a OpKernelContext \<Rightarrow> bool" where
  "general_path a num_split c =
     (num_split \<noteq> 1 \<and> \<not> (input0 c = 0 \<and> a (shape (input1 c))))"

text \<open>
  Coordinates. \<open>extents\<close> reads a shape as natural numbers, \<open>flat_index\<close> is the
  row-major position of a coordinate vector, and \<open>in_bounds\<close> says that every
  coordinate is below its extent.
\<close>

definition extents :: "TensorShape \<Rightarrow> nat list" where
  "extents s = map (\<lambda>d. nat (sint d)) s"

fun flat_index :: "nat list \<Rightarrow> nat list \<Rightarrow> nat" where
  "flat_index (d # ds) (c # cs) = c * prod_list ds + flat_index ds cs"
| "flat_index ds cs = 0"

definition in_bounds :: "nat list \<Rightarrow> nat list \<Rightarrow> bool" where
  "in_bounds ds cs = list_all2 (\<lambda>c d. c < d) cs ds"

text \<open>An integer reduced to a signed 32-bit value, as an \<^verbatim>\<open>int32\<close> holds it.\<close>

definition int32_value :: "int \<Rightarrow> int" where
  "int32_value v = sint (word_of_int v :: int32)"

text \<open>
  A shape split in \<open>n\<close> along axis \<open>k\<close> fits the 32-bit arithmetic of the general
  path when its split-axis size is below \<open>2\<^sup>3\<^sup>1\<close> and either one output has no
  element, or the prefix and suffix sizes are below \<open>2\<^sup>3\<^sup>1\<close> and the number of
  elements of one output, \<open>prefix \<sqdot> (split_dim_size / n) \<sqdot> suffix\<close>, is positive
  once reduced to 32 bits. Every shape whose split-axis size and per-output number of
  elements are below \<open>2\<^sup>3\<^sup>1\<close> fits.
\<close>

definition fits_split :: "TensorShape \<Rightarrow> nat \<Rightarrow> int \<Rightarrow> bool" where
  "fits_split s k n =
     (let count = prefix_size s k * (sint (dim_size s k) div n) * suffix_size s k
      in sint (dim_size s k) < 2 ^ 31
         \<and> (count = 0
              \<or> prefix_size s k < 2 ^ 31 \<and> suffix_size s k < 2 ^ 31
                  \<and> 0 < int32_value count))"

text \<open>
  The cells of output \<open>q\<close>, read from the cells \<open>xs\<close> of the input seen as a
  \<open>P \<times> D \<times> S\<close> array: position \<open>(p, j, z)\<close> of the output holds position
  \<open>(p, q \<sqdot> per + j, z)\<close> of the input.
\<close>

definition split_block :: "'b list \<Rightarrow> nat \<Rightarrow> nat \<Rightarrow> nat \<Rightarrow> nat \<Rightarrow> nat \<Rightarrow> 'b list" where
  "split_block xs P D S per q =
     map (\<lambda>m. xs ! ((m div (per * S) * D + (q * per + m div S mod per)) * S + m mod S))
       [0 ..< P * per * S]"

text \<open>
  The split axis and the sizes that the statements below speak of, as natural
  numbers, and the tensor that output \<open>q\<close> of the general path is.
\<close>

definition split_axis :: "'a OpKernelContext \<Rightarrow> nat" where
  "split_axis c = nat (sint (input0 c))"

definition prefix_count :: "'a OpKernelContext \<Rightarrow> nat" where
  "prefix_count c = nat (prefix_size (shape (input1 c)) (split_axis c))"

definition axis_count :: "'a OpKernelContext \<Rightarrow> nat" where
  "axis_count c = nat (sint (dim_size (shape (input1 c)) (split_axis c)))"

definition suffix_count :: "'a OpKernelContext \<Rightarrow> nat" where
  "suffix_count c = nat (suffix_size (shape (input1 c)) (split_axis c))"

definition per_split :: "int32 \<Rightarrow> 'a OpKernelContext \<Rightarrow> nat" where
  "per_split num_split c = axis_count c div nat (sint num_split)"

definition split_output :: "int32 \<Rightarrow> 'a OpKernelContext \<Rightarrow> nat \<Rightarrow> Tensor" where
  "split_output num_split c q =
     \<lparr>shape = (shape (input1 c))[split_axis c := of_nat (per_split num_split c)],
      buf = length (heap c) + q, base = 0\<rparr>"

text \<open>
  The round trip. A tensor value is the extents of a tensor with its cells, and
  \<open>concat_along k\<close> concatenates tensor values along axis \<open>k\<close>: for every position
  before the axis, the rows of the first tensor, then those of the second, and so on.
  \<open>output_list\<close> lists the outputs of a kernel with \<open>num_split\<close> outputs that are set.
\<close>

definition tensor_value :: "'a OpKernelContext \<Rightarrow> Tensor \<Rightarrow> nat list \<times> 'a option list" where
  "tensor_value c t = (extents (shape t), tensor_cells c t)"



text \<open>
  The 32-bit product \<^verbatim>\<open>prefix_dim_size * split_dim_output_size * suffix_dim_size\<close>
  that the CPU executor tests with \<^verbatim>\<open>> 0\<close> and the GPU executor with \<^verbatim>\<open>== 0\<close>.
\<close>

definition collapsed_count :: "int32 \<Rightarrow> 'a OpKernelContext \<Rightarrow> int32" where
  "collapsed_count num_split c =
     (case SetDims (shape (input1 c)) (input0 c) of
        (prefix_dim_size, split_dim_size, suffix_dim_size) \<Rightarrow>
          prefix_dim_size * cdiv split_dim_size num_split * suffix_dim_size)"

text \<open>
  The progress of the launch: \<open>i\<close> host actions done and \<open>j\<close> stream operations
  executed. \<open>enqueued i\<close> is the number of operations enqueued by the first \<open>i\<close>
  host actions. The host array \<open>h\<close> holds the reference of the local tensor until
  the last host action, and the reference taken for the copy from the first host
  action until the callback, which is the second stream operation.
\<close>

definition enqueued :: "nat \<Rightarrow> nat" where
  "enqueued i = min 3 (i - 1)"

definition launch_progress ::
  "Tensor \<Rightarrow> int32 \<Rightarrow> int32 \<times> int32 \<times> int32 \<Rightarrow> nat \<Rightarrow> nat \<Rightarrow> nat \<Rightarrow> nat \<Rightarrow> nat \<Rightarrow>
   HostAct list \<times> 'a OpKernelContext \<Rightarrow> bool" where
  "launch_progress inp num_split d h g n i j s =
     (case d of (P, D, S) \<Rightarrow>
        i \<le> 7 \<and> j \<le> enqueued i
        \<and> fst s = drop i (gpu_launch_acts inp num_split d h g n)
        \<and> stream (snd s) = drop j (take (enqueued i)
              [ThenMemcpy g h n, ThenExecuteUnref h, SplitOpGPULaunch inp num_split P D S g])
        \<and> h < length (temps (snd s))
        \<and> refs (temps (snd s) ! h) + (if i = 7 then 1 else 0) + (if 2 \<le> j then 1 else 0)
            = (if 1 \<le> i then 2 else 1))"

text \<open>
  The context of the GPU executor when every allocation has been granted: the two
  temporaries and the outputs are allocated and the host array is filled.
\<close>

definition gpu_allocated :: "int32 \<Rightarrow> 'a OpKernelContext \<Rightarrow> 'a OpKernelContext" where
  "gpu_allocated num_split context =
     (case SetDims (shape (input1 context)) (input0 context) of
        (prefix_dim_size, split_dim_size, suffix_dim_size) \<Rightarrow>
          let output_shape =
                set_dim (shape (input1 context)) (nat (sint (input0 context)))
                  (scast (cdiv split_dim_size num_split));
              n = nat (sint num_split)
          in (case allocate_temp n context of
                Inl s \<Rightarrow> context
              | Inr (output_ptrs_on_host, context1) \<Rightarrow>
             (case allocate_temp n context1 of
                Inl s \<Rightarrow> context1
              | Inr (output_ptrs_on_gpu, context2) \<Rightarrow>
                  fst (gpu_loop output_shape output_ptrs_on_host [0 ..< n] context2))))"

section \<open>Properties\<close>

subsection \<open>Conversions between 64 and 32 bits\<close>

lemma ucast_mult_down: "(ucast (x * y :: int64) :: int32) = ucast x * ucast y"
proof -
  have "(ucast (x * y) :: int32) = ucast (word_of_int (uint x * uint y) :: int64)"
    by (rule arg_cong [OF word_mult_def])
  also have "\<dots> = word_of_int (uint x * uint y)"
    by (rule ucast_down_wi) (simp add: is_down)
  also have "\<dots> = ucast x * ucast y"
    by simp
  finally show ?thesis .
qed

lemma ucast_scast_id32: "(ucast (scast (a::int32) :: int64) :: int32) = a"
  by transfer (simp add: min_def take_bit_signed_take_bit)

lemma ucast_sint32: "(ucast (x :: int64) :: int32) = word_of_int (sint x)"
  by transfer (simp add: take_bit_signed_take_bit min_def)

lemma sint32_word_of_int: "fits_int32 v \<Longrightarrow> sint (word_of_int v :: int32) = v"
  by (simp add: fits_int32_def sint_sbintrunc' signed_take_bit_int_eq_self)

lemma sint_ucast_down: "fits_int32 (sint x) \<Longrightarrow> sint (ucast (x :: int64) :: int32) = sint x"
  by (simp only: ucast_sint32 sint32_word_of_int)

lemma uint32_word_of_int: "uint (word_of_int v :: int32) = v mod 2 ^ 32"
  by (simp add: uint_word_of_int)

lemma sint32_range: "fits_int32 (sint (w :: int32))"
  using sint_range_size [of w] by (simp add: fits_int32_def word_size)

lemma cdiv_nonneg:
  fixes a b :: "'a::len word"
  assumes "0 \<le> sint a" "0 < sint b"
  shows "sint (cdiv a b) = sint a div sint b"
proof -
  have e: "sint a sdiv sint b = sint a div sint b"
    using assms by (simp add: signed_divide_int_def sgn_if)
  have "0 \<le> sint a div sint b" using assms by (simp add: pos_imp_zdiv_nonneg_iff)
  moreover have "sint a div sint b \<le> sint a"
  proof (cases "sint a = 0")
    case True
    then show ?thesis by simp
  next
    case False
    with assms(1) have "0 < sint a" by simp
    then show ?thesis by (rule int_div_le_self)
  qed
  ultimately have "sint (word_of_int (sint a div sint b) :: 'a word) = sint a div sint b"
    using sint_range_size [of a]
    by (simp add: sint_sbintrunc' signed_take_bit_int_eq_self word_size)
  then show ?thesis by (simp add: cdiv_def e)
qed

lemma crem_nonneg:
  fixes a b :: "'a::len word"
  assumes "0 \<le> sint a" "0 < sint b"
  shows "(crem a b = 0) = (sint a mod sint b = 0)"
proof -
  have e: "sint a smod sint b = sint a mod sint b"
    using assms by (simp add: signed_modulo_int_def sgn_if)
  have "0 \<le> sint a mod sint b" using assms by simp
  moreover have "sint a mod sint b < sint b" using assms by simp
  ultimately have r: "sint (word_of_int (sint a mod sint b) :: 'a word) = sint a mod sint b"
    using sint_range_size [of b]
    by (simp add: sint_sbintrunc' signed_take_bit_int_eq_self word_size)
  show ?thesis
    unfolding crem_def e
  proof
    assume "(word_of_int (sint a mod sint b) :: 'a word) = 0"
    then have "sint (word_of_int (sint a mod sint b) :: 'a word) = 0" by simp
    with r show "sint a mod sint b = 0" by simp
  next
    assume "sint a mod sint b = 0"
    then show "(word_of_int (sint a mod sint b) :: 'a word) = 0" by simp
  qed
qed

subsection \<open>SetDims\<close>

lemma mul_into_int32_eq: "mul_into_int32 acc d = acc * ucast d"
  by (simp only: mul_into_int32_def ucast_mult_down ucast_scast_id32)

lemma fold_mul: "fold (\<lambda>d acc. mul_into_int32 acc d) ds a = a * prod_list (map ucast ds)"
  by (induction ds arbitrary: a) (simp_all add: mul_into_int32_eq mult.assoc)

lemma map_nth_take: "k \<le> length xs \<Longrightarrow> map ((!) xs) [0..<k] = take k xs"
  by (rule nth_equalityI) simp_all

lemma map_nth_drop: "map ((!) xs) [k..<length xs] = drop k xs"
  by (rule nth_equalityI) (simp_all add: add.commute)

lemma prod_ucast: "prod_list (map ucast ds) = (word_of_int (dims_product ds) :: int32)"
  by (induction ds) (simp_all add: dims_product_def ucast_sint32)

lemma fold_dim_size:
  "fold (\<lambda>i acc. mul_into_int32 acc (dim_size s i)) is a
     = fold (\<lambda>d acc. mul_into_int32 acc d) (map ((!) s) is) a"
  by (induction "is" arbitrary: a) (simp_all add: dim_size_def)

text \<open>Each component of the triple is the low 32 bits of the size it stands for.\<close>

lemma SetDims_words:
  assumes "0 \<le> sint split_dim" "sint split_dim < dims input_shape"
  shows "SetDims input_shape split_dim =
           (word_of_int (prefix_size input_shape (nat (sint split_dim))),
            ucast (dim_size input_shape (nat (sint split_dim))),
            word_of_int (suffix_size input_shape (nat (sint split_dim))))"
proof -
  let ?k = "nat (sint split_dim)"
  have k: "?k < length input_shape" using assms by (simp add: dims_def)
  have suc: "nat (sint split_dim + 1) = Suc ?k" using assms(1) by simp
  have p: "fold (\<lambda>i acc. mul_into_int32 acc (dim_size input_shape i)) [0..<?k] 1
             = word_of_int (dims_product (take ?k input_shape))"
    using k by (simp add: fold_dim_size map_nth_take fold_mul prod_ucast)
  have s: "fold (\<lambda>i acc. mul_into_int32 acc (dim_size input_shape i))
             [Suc ?k..<length input_shape] 1
             = word_of_int (dims_product (drop (Suc ?k) input_shape))"
    by (simp add: fold_dim_size map_nth_drop fold_mul prod_ucast)
  show ?thesis
    unfolding SetDims_def Let_def suc p dims_def nat_int s prefix_size_def suffix_size_def
    by simp
qed

text \<open>
  C6, as amended. For every shape and every \<open>split_dim\<close> in \<open>[0, rank)\<close> whose
  prefix product, split-axis size and suffix product each fit in \<^verbatim>\<open>int32\<close>,
  \<open>SetDims\<close> returns the triple of the product of the sizes before \<open>split_dim\<close>,
  the size at \<open>split_dim\<close>, and the product of the sizes after it; the prefix
  product is 1 when \<open>split_dim\<close> is 0 and the suffix product is 1 when
  \<open>split_dim\<close> is the last axis. \<open>SetDims\<close> is a total function of its two
  arguments.
\<close>

theorem SetDims_triple:
  assumes "0 \<le> sint split_dim" and "sint split_dim < dims input_shape"
    and "fits_int32 (prefix_size input_shape (nat (sint split_dim)))"
    and "fits_int32 (sint (dim_size input_shape (nat (sint split_dim))))"
    and "fits_int32 (suffix_size input_shape (nat (sint split_dim)))"
  shows "(case SetDims input_shape split_dim of (p, d, s) \<Rightarrow> (sint p, sint d, sint s))
           = (prefix_size input_shape (nat (sint split_dim)),
              sint (dim_size input_shape (nat (sint split_dim))),
              suffix_size input_shape (nat (sint split_dim)))
         \<and> prefix_size input_shape 0 = 1
         \<and> suffix_size input_shape (length input_shape - 1) = 1"
proof -
  have "prefix_size input_shape 0 = 1"
    by (simp add: prefix_size_def dims_product_def)
  moreover have "suffix_size input_shape (length input_shape - 1) = 1"
    by (simp add: suffix_size_def dims_product_def)
  ultimately show ?thesis
    using assms(3-5)
    by (simp add: SetDims_words [OF assms(1,2)] sint32_word_of_int sint_ucast_down)
qed

theorem SetDims_triple_witness:
  "(case SetDims [2, 3, 4, 5] 2 of (p, d, s) \<Rightarrow> (sint p, sint d, sint s)) = (6, 4, 5)
   \<and> prefix_size [2, 3, 4, 5] 2 = 6 \<and> suffix_size [2, 3, 4, 5] 2 = 5"
  using SetDims_triple [of 2 "[2, 3, 4, 5]"]
  by (simp add: prefix_size_def suffix_size_def dims_product_def dims_def dim_size_def
      fits_int32_def)

text \<open>
  C6 as stated fails: for the shape \<open>(65536, 65536, 0)\<close> split on its last axis the
  product of the sizes before the axis is \<open>2\<^sup>3\<^sup>2\<close>, and \<open>SetDims\<close> returns 0.
\<close>

theorem SetDims_triple_counterexample:
  "SetDims [65536, 65536, 0] 2 = (0, 0, 1)
   \<and> prefix_size [65536, 65536, 0] 2 = 4294967296
   \<and> sint (fst (SetDims [65536, 65536, 0] 2)) \<noteq> prefix_size [65536, 65536, 0] 2"
  by code_simp

text \<open>
  C10. \<open>SetDims\<close> folds each 64-bit size into a 32-bit accumulator: the prefix and
  the suffix it returns are the products reduced modulo \<open>2\<^sup>3\<^sup>2\<close>, so they differ
  from the products whenever these do not fit in \<^verbatim>\<open>int32\<close>. The row offset
  \<open>delta\<close> of the dim-0 fast path is a 64-bit quotient: it is the exact quotient
  for every non-negative 64-bit size.
\<close>

theorem SetDims_wraps_int32:
  assumes "0 \<le> sint split_dim" and "sint split_dim < dims input_shape"
  shows "(case SetDims input_shape split_dim of (p, d, s) \<Rightarrow>
            uint p = prefix_size input_shape (nat (sint split_dim)) mod 2 ^ 32
          \<and> uint s = suffix_size input_shape (nat (sint split_dim)) mod 2 ^ 32
          \<and> (\<not> fits_int32 (prefix_size input_shape (nat (sint split_dim)))
               \<longrightarrow> sint p \<noteq> prefix_size input_shape (nat (sint split_dim)))
          \<and> (\<not> fits_int32 (suffix_size input_shape (nat (sint split_dim)))
               \<longrightarrow> sint s \<noteq> suffix_size input_shape (nat (sint split_dim))))
         \<and> (0 \<le> sint (dim_size input_shape 0) \<and> 0 < sint num_split
              \<longrightarrow> sint (slice_delta input_shape num_split)
                    = sint (dim_size input_shape 0) div sint num_split)"
proof -
  have d: "0 \<le> sint (dim_size input_shape 0) \<and> 0 < sint num_split
        \<longrightarrow> sint (slice_delta input_shape num_split)
              = sint (dim_size input_shape 0) div sint num_split"
  proof
    assume h: "0 \<le> sint (dim_size input_shape 0) \<and> 0 < sint num_split"
    have up: "sint (scast num_split :: int64) = sint num_split"
      by (rule sint_up_scast) (simp add: is_up)
    show "sint (slice_delta input_shape num_split)
            = sint (dim_size input_shape 0) div sint num_split"
      using h cdiv_nonneg [of "dim_size input_shape 0" "scast num_split"]
      by (simp add: slice_delta_def up)
  qed
  have n: "\<not> fits_int32 v \<Longrightarrow> sint (word_of_int v :: int32) \<noteq> v" for v
    using sint32_range [of "word_of_int v"] by auto
  show ?thesis
    using d n by (simp add: SetDims_words [OF assms] uint32_word_of_int)
qed

theorem SetDims_wraps_int32_witness:
  "uint (fst (SetDims [65536, 65536, 0] 2)) = 4294967296 mod 2 ^ 32
   \<and> prefix_size [65536, 65536, 0] 2 = 4294967296
   \<and> sint (fst (SetDims [65536, 65536, 0] 2)) \<noteq> 4294967296
   \<and> sint (slice_delta [8589934592, 3] 2) = 4294967296"
  using SetDims_wraps_int32 [of 2 "[65536, 65536, 0]" 2]
    SetDims_wraps_int32 [of 0 "[8589934592, 3]" 2]
  by (simp add: prefix_size_def suffix_size_def dims_product_def dims_def dim_size_def
      fits_int32_def split: prod.splits)

subsection \<open>Validation and the easy cases\<close>

lemma crem_zero_iff:
  fixes a b :: "'a::len word"
  assumes "sint b \<noteq> 0"
  shows "(crem a b = 0) = (sint a smod sint b = 0)"
proof -
  let ?r = "sint a smod sint b"
  have rng: "?r \<in> {- \<bar>sint b\<bar> + 1..\<bar>sint b\<bar> - 1}"
    using assms by (rule smod_int_range)
  have "- (2 ^ (LENGTH('a) - 1)) \<le> sint b" "sint b < 2 ^ (LENGTH('a) - 1)"
    using sint_range_size [of b] by (simp_all add: word_size)
  with rng have "- (2 ^ (LENGTH('a) - 1)) \<le> ?r" "?r < 2 ^ (LENGTH('a) - 1)"
    by auto
  then have r: "sint (word_of_int ?r :: 'a word) = ?r"
    by (simp add: sint_sbintrunc' signed_take_bit_int_eq_self)
  show ?thesis
    unfolding crem_def
  proof
    assume "(word_of_int ?r :: 'a word) = 0"
    then have "sint (word_of_int ?r :: 'a word) = 0" by simp
    with r show "?r = 0" by simp
  next
    assume "?r = 0"
    then show "(word_of_int ?r :: 'a word) = 0" by simp
  qed
qed

lemma sint_scast_up: "sint (scast (n :: int32) :: int64) = sint n"
  by (rule sint_up_scast) (simp add: is_up)

lemma ComputeEasyCases_invalid:
  assumes "\<not> valid_split num_split c"
  shows "ComputeEasyCases a num_split c = (CtxFailure InvalidArgument c, False)"
proof (cases "0 \<le> sint (input0 c) \<and> sint (input0 c) < dims (shape (input1 c))")
  case False
  then show ?thesis by (simp add: ComputeEasyCases_def Let_def)
next
  case r: True
  show ?thesis
  proof (cases "0 < sint num_split")
    case False
    then show ?thesis by (simp add: ComputeEasyCases_def Let_def)
  next
    case True
    then have "sint (scast num_split :: int64) \<noteq> 0" by (simp add: sint_scast_up)
    from crem_zero_iff [OF this] assms r True
    have "crem (dim_size (shape (input1 c)) (nat (sint (input0 c)))) (scast num_split) \<noteq> 0"
      by (simp add: valid_split_def sint_scast_up)
    with r True show ?thesis by (simp add: ComputeEasyCases_def Let_def)
  qed
qed

lemma ComputeEasyCases_valid:
  assumes "valid_split num_split c"
  shows "ComputeEasyCases a num_split c =
     (if num_split = 1 then (set_output 0 (input1 c) c, True)
      else if input0 c = 0 \<and> a (shape (input1 c))
      then (fold (\<lambda>i. set_output i
                (Slice (input1 c) (of_nat i * slice_delta (shape (input1 c)) num_split)
                   ((of_nat i + 1) * slice_delta (shape (input1 c)) num_split)))
              [0 ..< nat (sint num_split)] c, True)
      else (c, False))"
proof -
  from assms have p: "0 < sint num_split" by (simp add: valid_split_def)
  then have "sint (scast num_split :: int64) \<noteq> 0" by (simp add: sint_scast_up)
  from crem_zero_iff [OF this] assms
  have "crem (dim_size (shape (input1 c)) (nat (sint (input0 c)))) (scast num_split) = 0"
    by (simp add: valid_split_def sint_scast_up)
  with assms show ?thesis
    by (simp add: ComputeEasyCases_def Let_def valid_split_def)
qed

text \<open>
  C3. When \<open>split_dim\<close> is outside \<open>[0, rank)\<close>, or \<open>num_split \<le> 0\<close>, or the
  split-axis size is not a multiple of \<open>num_split\<close>, the easy cases and both
  executors stop with \<open>InvalidArgument\<close>, whatever the identity case, the
  alignment test and the general path would do; the status is all that changes: no
  output is set, no buffer or temporary is allocated, nothing is copied or enqueued.
\<close>

theorem invalid_argument_rejected:
  assumes "\<not> valid_split num_split c"
  shows "ComputeEasyCases a num_split c = (CtxFailure InvalidArgument c, False)
       \<and> Compute_CPU a num_split c = CtxFailure InvalidArgument c
       \<and> Compute_GPU a num_split c = CtxFailure InvalidArgument c
       \<and> status (CtxFailure InvalidArgument c) = InvalidArgument
       \<and> outputs (CtxFailure InvalidArgument c) = outputs c
       \<and> heap (CtxFailure InvalidArgument c) = heap c
       \<and> allocs (CtxFailure InvalidArgument c) = allocs c
       \<and> temps (CtxFailure InvalidArgument c) = temps c
       \<and> copies (CtxFailure InvalidArgument c) = copies c
       \<and> stream (CtxFailure InvalidArgument c) = stream c"
  by (simp add: ComputeEasyCases_invalid [OF assms] Compute_CPU_def Compute_GPU_def
      CtxFailure_def)

theorem invalid_argument_rejected_witness:
  "\<not> valid_split 3 (context_of [4, 3] 0 [0 ..< 12 :: nat])
   \<and> status (Compute_CPU (\<lambda>s. True) 3 (context_of [4, 3] 0 [0 ..< 12 :: nat])) = InvalidArgument
   \<and> outputs (Compute_CPU (\<lambda>s. True) 3 (context_of [4, 3] 0 [0 ..< 12 :: nat])) = Map.empty
   \<and> \<not> valid_split 2 (context_of [4, 3] (- 1) [0 ..< 12 :: nat])
   \<and> status (Compute_GPU (\<lambda>s. True) 2 (context_of [4, 3] (- 1) [0 ..< 12 :: nat])) = InvalidArgument
   \<and> \<not> valid_split 0 (context_of [4, 3] 0 [0 ..< 12 :: nat])
   \<and> status (Compute_CPU (\<lambda>s. True) 0 (context_of [4, 3] 0 [0 ..< 12 :: nat])) = InvalidArgument"
proof -
  have v1: "\<not> valid_split 3 (context_of [4, 3] 0 [0 ..< 12 :: nat])"
    by (simp add: valid_split_def context_of_def dims_def dim_size_def)
  have v2: "\<not> valid_split 2 (context_of [4, 3] (- 1) [0 ..< 12 :: nat])"
    by (simp add: valid_split_def context_of_def dims_def dim_size_def)
  have v3: "\<not> valid_split 0 (context_of [4, 3] 0 [0 ..< 12 :: nat])"
    by (simp add: valid_split_def context_of_def dims_def dim_size_def)
  show ?thesis
    using v1 v2 v3 invalid_argument_rejected [OF v1, of "\<lambda>s. True"]
      invalid_argument_rejected [OF v2, of "\<lambda>s. True"]
      invalid_argument_rejected [OF v3, of "\<lambda>s. True"]
    by (simp add: CtxFailure_def context_of_def)
qed

text \<open>
  C4. When a valid invocation has \<open>num_split = 1\<close>, the easy cases set output 0
  to the input tensor itself (the same buffer and the same start) and report
  \<open>done\<close>, so both executors return at once: the heap, the allocation count, the
  temporaries, the copies and the stream are those of the start.
\<close>

theorem identity_case:
  assumes "valid_split num_split c" and "num_split = 1"
  shows "ComputeEasyCases a num_split c = (set_output 0 (input1 c) c, True)
       \<and> Compute_CPU a num_split c = set_output 0 (input1 c) c
       \<and> Compute_GPU a num_split c = set_output 0 (input1 c) c
       \<and> outputs (set_output 0 (input1 c) c) = (outputs c)(0 \<mapsto> input1 c)
       \<and> status (set_output 0 (input1 c) c) = status c
       \<and> heap (set_output 0 (input1 c) c) = heap c
       \<and> allocs (set_output 0 (input1 c) c) = allocs c
       \<and> temps (set_output 0 (input1 c) c) = temps c
       \<and> copies (set_output 0 (input1 c) c) = copies c
       \<and> stream (set_output 0 (input1 c) c) = stream c"
proof -
  have e: "ComputeEasyCases a num_split c = (set_output 0 (input1 c) c, True)"
    by (subst ComputeEasyCases_valid [OF assms(1)]) (simp add: assms(2))
  show ?thesis
    unfolding Compute_CPU_def Compute_GPU_def e by (simp add: set_output_def)
qed

theorem identity_case_witness:
  "valid_split 1 (context_of [4, 3] 0 [0 ..< 12 :: nat])
   \<and> outputs (Compute_CPU (\<lambda>s. True) 1 (context_of [4, 3] 0 [0 ..< 12 :: nat]))
       = [0 \<mapsto> \<lparr>shape = [4, 3], buf = 0, base = 0\<rparr>]
   \<and> heap (Compute_CPU (\<lambda>s. True) 1 (context_of [4, 3] 0 [0 ..< 12 :: nat]))
       = heap (context_of [4, 3] 0 [0 ..< 12 :: nat])"
proof -
  have v: "valid_split 1 (context_of [4, 3] 0 [0 ..< 12 :: nat])"
    by (simp add: valid_split_def context_of_def dims_def dim_size_def signed_modulo_int_def)
  show ?thesis
    using v identity_case [OF v refl, of "\<lambda>s. True"]
    by (simp add: set_output_def context_of_def)
qed

lemma fold_set_output:
  "fold (\<lambda>i. set_output i (f i)) [0 ..< n] c
     = c\<lparr>outputs := (\<lambda>j. if j < n then Some (f j) else outputs c j)\<rparr>"
proof (induction n)
  case 0
  then show ?case by simp
next
  case (Suc n)
  have "(\<lambda>j. if j < Suc n then Some (f j) else outputs c j)
          = (\<lambda>j. if j < n then Some (f j) else outputs c j)(n \<mapsto> f n)"
    by (rule ext) (simp add: less_Suc_eq)
  with Suc show ?case by (simp add: set_output_def)
qed

subsection \<open>Shapes and their sizes\<close>

lemma sint64_word_of_int:
  "- (2 ^ 63) \<le> v \<Longrightarrow> v < 2 ^ 63 \<Longrightarrow> sint (word_of_int v :: int64) = v"
  by (simp add: sint_sbintrunc' signed_take_bit_int_eq_self)

lemma sint64_bounds: "- (2 ^ 63) \<le> sint (w :: int64)" "sint (w :: int64) < 2 ^ 63"
  using sint_range_size [of w] by (simp_all add: word_size)

lemma sint_int64_mult:
  assumes "0 \<le> int i * sint d" "int i * sint d \<le> sint (m :: int64)"
  shows "sint (of_nat i * (d :: int64)) = int i * sint d"
proof -
  have "of_nat i * d = (word_of_int (int i * sint d) :: int64)" by simp
  moreover have "sint (word_of_int (int i * sint d) :: int64) = int i * sint d"
    using assms sint64_bounds(2) [of m] by (intro sint64_word_of_int) simp_all
  ultimately show ?thesis by simp
qed

lemma dims_product_nonneg: "valid_shape s \<Longrightarrow> 0 \<le> dims_product s"
  by (induction s) (simp_all add: valid_shape_def dims_product_def)

lemma valid_shape_tl: "valid_shape s \<Longrightarrow> valid_shape (tl s)"
  by (cases s) (simp_all add: valid_shape_def)

lemma valid_shape_nth: "valid_shape s \<Longrightarrow> k < length s \<Longrightarrow> 0 \<le> sint (s ! k)"
  by (simp add: valid_shape_def list_all_length)

lemma num_elements_Cons:
  "0 \<le> sint d \<Longrightarrow> num_elements (d # s) = nat (sint d) * num_elements s"
  by (simp add: num_elements_def dims_product_def nat_mult_distrib)

text \<open>What a valid invocation on a well-formed shape gives in integers.\<close>

lemma valid_split_ints:
  assumes "valid_split num_split c" "valid_shape (shape (input1 c))"
  shows "nat (sint (input0 c)) < length (shape (input1 c))"
    and "0 \<le> sint (dim_size (shape (input1 c)) (nat (sint (input0 c))))"
    and "0 < sint num_split"
    and "sint (dim_size (shape (input1 c)) (nat (sint (input0 c)))) mod sint num_split = 0"
proof -
  show k: "nat (sint (input0 c)) < length (shape (input1 c))"
    using assms(1) by (auto simp add: valid_split_def dims_def)
  show d: "0 \<le> sint (dim_size (shape (input1 c)) (nat (sint (input0 c))))"
    using valid_shape_nth [OF assms(2) k] by (simp add: dim_size_def)
  show n: "0 < sint num_split" using assms(1) by (simp add: valid_split_def)
  show "sint (dim_size (shape (input1 c)) (nat (sint (input0 c)))) mod sint num_split = 0"
    using assms(1) d n smod_mod_positive [of "sint (dim_size (shape (input1 c)) (nat (sint (input0 c))))" "sint num_split"]
    by (simp add: valid_split_def)
qed

subsection \<open>The dim-0 fast path\<close>

lemma take_drop_take:
  "k + m \<le> n \<Longrightarrow> take m (drop k (take n xs)) = take m (drop k xs)"
  by (simp add: drop_take min_def)

lemma slice_rows:
  assumes vs: "valid_shape s" and ne: "s \<noteq> []"
    and d: "0 \<le> sint delta" and i: "0 \<le> sint start"
    and le: "sint start + sint delta \<le> sint (hd s)"
  shows "take (num_elements (delta # tl s)) (drop (b + nat (sint start) * num_elements (tl s)) xs)
       = take (nat (sint delta) * num_elements (tl s))
           (drop (nat (sint start) * num_elements (tl s)) (take (num_elements s) (drop b xs)))"
proof -
  let ?row = "num_elements (tl s)"
  from ne obtain d0 s' where s: "s = d0 # s'" by (cases s) auto
  have d0: "0 \<le> sint d0" using vs s by (simp add: valid_shape_def)
  have N: "num_elements s = nat (sint d0) * ?row"
    using d0 s by (simp add: num_elements_Cons)
  have "nat (sint start) + nat (sint delta) \<le> nat (sint d0)"
    using le d i s by simp
  then have "(nat (sint start) + nat (sint delta)) * ?row \<le> nat (sint d0) * ?row"
    by (rule mult_le_mono1)
  then have "nat (sint start) * ?row + nat (sint delta) * ?row \<le> num_elements s"
    by (simp add: N add_mult_distrib)
  then show ?thesis
    by (simp add: take_drop_take num_elements_Cons [OF d] add.commute)
qed

text \<open>
  C5. When a valid invocation has \<open>num_split > 1\<close>, \<open>split_dim = 0\<close> and inner
  dimensions that meet the alignment test, the easy cases set every output \<open>i\<close>
  below \<open>num_split\<close> to a view of the buffer of the input: it starts
  \<open>i \<sqdot> delta\<close> rows after the start of the input, where
  \<open>delta = dim_size(0) / num_split\<close>, its first dimension is \<open>delta\<close>, its cells
  are the rows \<open>[i \<sqdot> delta, (i + 1) \<sqdot> delta)\<close> of the input, and the heap, the
  allocation count and the copies are those of the start. Both executors return
  this state.
\<close>

theorem dim0_slice:
  assumes wf: "wf_context c" and v: "valid_split num_split c"
    and n1: "num_split \<noteq> 1" and d0: "input0 c = 0" and al: "a (shape (input1 c))"
    and i: "i < nat (sint num_split)"
  shows "ComputeEasyCases a num_split c = (Compute_CPU a num_split c, True)
       \<and> Compute_GPU a num_split c = Compute_CPU a num_split c
       \<and> status (Compute_CPU a num_split c) = OK
       \<and> heap (Compute_CPU a num_split c) = heap c
       \<and> allocs (Compute_CPU a num_split c) = allocs c
       \<and> temps (Compute_CPU a num_split c) = temps c
       \<and> copies (Compute_CPU a num_split c) = copies c
       \<and> stream (Compute_CPU a num_split c) = stream c
       \<and> (\<exists>t. outputs (Compute_CPU a num_split c) i = Some t
              \<and> buf t = buf (input1 c)
              \<and> base t = base (input1 c)
                   + i * nat (sint (dim_size (shape (input1 c)) 0) div sint num_split)
                       * num_elements (tl (shape (input1 c)))
              \<and> shape t = slice_delta (shape (input1 c)) num_split # tl (shape (input1 c))
              \<and> sint (slice_delta (shape (input1 c)) num_split)
                   = sint (dim_size (shape (input1 c)) 0) div sint num_split
              \<and> tensor_cells (Compute_CPU a num_split c) t
                   = take (nat (sint (dim_size (shape (input1 c)) 0) div sint num_split)
                             * num_elements (tl (shape (input1 c))))
                       (drop (i * nat (sint (dim_size (shape (input1 c)) 0) div sint num_split)
                                * num_elements (tl (shape (input1 c))))
                          (tensor_cells c (input1 c))))"
proof -
  let ?s = "shape (input1 c)"
  let ?n = "sint num_split"
  let ?D = "sint (dim_size ?s 0)"
  let ?dl = "slice_delta ?s num_split"
  let ?f = "\<lambda>i. Slice (input1 c) (of_nat i * ?dl) ((of_nat i + 1) * ?dl)"
  let ?r = "c\<lparr>outputs := (\<lambda>j. if j < nat ?n then Some (?f j) else outputs c j)\<rparr>"
  have vs: "valid_shape ?s" and st: "status c = OK" using wf by (simp_all add: wf_context_def)
  note vi = valid_split_ints [OF v vs]
  have ne: "?s \<noteq> []" using vi(1) by auto
  have D: "0 \<le> ?D" and n: "0 < ?n" and m: "?D mod ?n = 0"
    using vi d0 by simp_all
  have hd: "sint (hd ?s) = ?D" using ne by (simp add: dim_size_def hd_conv_nth)
  have dl: "sint ?dl = ?D div ?n"
    using cdiv_nonneg [of "dim_size ?s 0" "scast num_split"] D n
    by (simp add: slice_delta_def sint_scast_up)
  have dl0: "0 \<le> sint ?dl" using dl D n by (simp add: pos_imp_zdiv_nonneg_iff)
  have full: "?n * (?D div ?n) = ?D" using m mult_div_mod_eq [of ?n ?D] by simp
  have e: "ComputeEasyCases a num_split c = (?r, True)"
    by (subst ComputeEasyCases_valid [OF v]) (simp add: n1 d0 al fold_set_output)
  have cpu: "Compute_CPU a num_split c = ?r"
    unfolding Compute_CPU_def e by simp
  have gpu: "Compute_GPU a num_split c = ?r"
    unfolding Compute_GPU_def e by simp
  have ile: "int i * sint ?dl \<le> ?D" "int (Suc i) * sint ?dl \<le> ?D"
  proof -
    have "int (Suc i) \<le> ?n" using i by simp
    then have "int (Suc i) * (?D div ?n) \<le> ?n * (?D div ?n)"
      using dl0 dl by (intro mult_right_mono) simp_all
    then show "int (Suc i) * sint ?dl \<le> ?D" using full dl by simp
    then show "int i * sint ?dl \<le> ?D" using dl0 by (simp add: distrib_right)
  qed
  have si: "sint (of_nat i * ?dl) = int i * sint ?dl"
    using dl0 ile(1) by (intro sint_int64_mult [where m = "dim_size ?s 0"]) simp_all
  have lim: "(of_nat i + 1) * ?dl - of_nat i * ?dl = ?dl"
    by (simp add: algebra_simps)
  have ni: "nat (int i * (?D div ?n)) = i * nat (?D div ?n)"
    by (simp add: nat_mult_distrib)
  have cells: "tensor_cells ?r (?f i)
      = take (nat (?D div ?n) * num_elements (tl ?s))
          (drop (i * nat (?D div ?n) * num_elements (tl ?s)) (tensor_cells c (input1 c)))"
    using slice_rows [OF vs ne dl0, of "of_nat i * ?dl" "base (input1 c)" "heap c ! buf (input1 c)"]
      ile(2) dl0
    by (simp add: tensor_cells_def Slice_def lim si hd ni dl distrib_right)
  have ni': "nat (int i * sint ?dl) = i * nat (?D div ?n)"
    using ni by (simp add: dl)
  have b: "base (?f i) = base (input1 c) + i * nat (?D div ?n) * num_elements (tl ?s)"
    by (simp add: Slice_def si ni')
  have sh: "shape (?f i) = ?dl # tl ?s"
    by (simp add: Slice_def lim)
  have bf: "buf (?f i) = buf (input1 c)"
    by (simp add: Slice_def)
  have out: "outputs ?r i = Some (?f i)" using i by simp
  have "\<exists>t. outputs ?r i = Some t
              \<and> buf t = buf (input1 c)
              \<and> base t = base (input1 c) + i * nat (?D div ?n) * num_elements (tl ?s)
              \<and> shape t = ?dl # tl ?s
              \<and> sint ?dl = ?D div ?n
              \<and> tensor_cells ?r t
                   = take (nat (?D div ?n) * num_elements (tl ?s))
                       (drop (i * nat (?D div ?n) * num_elements (tl ?s))
                          (tensor_cells c (input1 c)))"
    using out bf b sh dl cells by blast
  then show ?thesis
    unfolding cpu gpu e using st by simp
qed

theorem dim0_slice_witness:
  "wf_context (context_of [6, 2] 0 [0 ..< 12 :: nat])
   \<and> valid_split 3 (context_of [6, 2] 0 [0 ..< 12 :: nat])
   \<and> heap (Compute_CPU (\<lambda>s. True) 3 (context_of [6, 2] 0 [0 ..< 12 :: nat]))
        = heap (context_of [6, 2] 0 [0 ..< 12 :: nat])
   \<and> (\<exists>t. outputs (Compute_CPU (\<lambda>s. True) 3 (context_of [6, 2] 0 [0 ..< 12 :: nat])) 1 = Some t
          \<and> buf t = 0 \<and> base t = 4 \<and> shape t = [2, 2]
          \<and> tensor_cells (Compute_CPU (\<lambda>s. True) 3 (context_of [6, 2] 0 [0 ..< 12 :: nat])) t
               = [Some 4, Some 5, Some 6, Some 7])"
proof -
  let ?c = "context_of [6, 2] 0 [0 ..< 12 :: nat]"
  have wf: "wf_context ?c"
    by (simp add: wf_context_def context_of_def valid_shape_def num_elements_def
        dims_product_def)
  have v: "valid_split 3 ?c"
    by (simp add: valid_split_def context_of_def dims_def dim_size_def)
  have n1: "(3 :: int32) \<noteq> 1" by simp
  have d0: "input0 ?c = 0" by (simp add: context_of_def)
  have i: "1 < nat (sint (3 :: int32))" by simp
  have sd: "slice_delta [6, 2] 3 = 2"
    by (simp add: slice_delta_def cdiv_def dim_size_def)
  have cells: "tensor_cells ?c (input1 ?c) = map Some [0 ..< 12]"
    by (simp add: tensor_cells_def context_of_def num_elements_def dims_product_def)
  have sh: "shape (input1 ?c) = [6, 2]" "buf (input1 ?c) = 0" "base (input1 ?c) = 0"
    by (simp_all add: context_of_def)
  have ne: "num_elements [2] = 2" by (simp add: num_elements_def dims_product_def)
  have td: "take 4 (drop 4 (map Some [0 ..< 12 :: nat])) = [Some 4, Some 5, Some 6, Some 7]"
    by code_simp
  show ?thesis
    using wf v dim0_slice [OF wf v n1 d0 TrueI i]
    unfolding cells sh sd
    by (simp add: ne dim_size_def td)
qed

subsection \<open>The loop of the CPU executor\<close>

lemma cpu_loop_step:
  assumes ok: "alloc_ok c (allocs c)" and b: "buf (fst inp) < length (heap c)"
  shows "cpu_loop inp oshape (P, per, S) sizes (j # rest) idx c
     = cpu_loop inp oshape (P, per, S) sizes rest
         (fst idx, fst (snd idx) + scast per, snd (snd idx))
         (c\<lparr>outputs := (outputs c)(j \<mapsto> fresh_output oshape c 0),
            heap := heap c @ [if 0 < sint (P * per * S)
                              then copied_cells c inp oshape idx sizes
                              else replicate (num_elements oshape) None],
            allocs := Suc (allocs c),
            copies := copies c @ (if 0 < sint (P * per * S)
                       then [SplitCall (fresh_output oshape c 0, (scast P, scast per, scast S))
                               inp idx sizes]
                       else [])\<rparr>)"
proof -
  let ?t = "fresh_output oshape c 0"
  let ?c1 = "c\<lparr>outputs := (outputs c)(j \<mapsto> ?t),
                heap := heap c @ [replicate (num_elements oshape) None],
                allocs := Suc (allocs c)\<rparr>"
  let ?c2 = "c\<lparr>outputs := (outputs c)(j \<mapsto> ?t),
            heap := heap c @ [if 0 < sint (P * per * S)
                              then copied_cells c inp oshape idx sizes
                              else replicate (num_elements oshape) None],
            allocs := Suc (allocs c),
            copies := copies c @ (if 0 < sint (P * per * S)
                       then [SplitCall (?t, (scast P, scast per, scast S)) inp idx sizes]
                       else [])\<rparr>"
  have a: "allocate_output j oshape c = Inr (?t, ?c1)"
    using ok by (simp add: allocate_output_def Let_def fresh_output_def)
  have s: "(if 0 < sint (P * per * S)
            then Split_CPU (?t, (scast P, scast per, scast S)) inp idx sizes ?c1
            else ?c1) = ?c2"
    using b
    by (auto intro!: OpKernelContext.equality
        simp add: Split_CPU_def Let_def fresh_output_def copied_cells_def nth_append)
  show ?thesis
    unfolding cpu_loop.simps prod.case a sum.case Let_def s ..
qed

lemma upt_0_Suc_map: "[0 ..< Suc m] = 0 # map Suc [0 ..< m]"
  by (simp add: upt_conv_Cons map_Suc_upt del: upt_Suc)

lemma cpu_loop_closed:
  assumes ok: "\<forall>q. alloc_ok c q" and b: "buf (fst inp) < length (heap c)"
  shows "cpu_loop inp oshape (P, per, S) sizes [j ..< j + m] (ia, ib, ic) c
     = c\<lparr>outputs := (\<lambda>i. if j \<le> i \<and> i < j + m
                           then Some (fresh_output oshape c (i - j)) else outputs c i),
          heap := heap c @ map (\<lambda>q. if 0 < sint (P * per * S)
                                   then copied_cells c inp oshape
                                          (ia, ib + of_nat q * scast per, ic) sizes
                                   else replicate (num_elements oshape) None) [0 ..< m],
          allocs := allocs c + m,
          copies := copies c @ (if 0 < sint (P * per * S)
                     then map (\<lambda>q. SplitCall (fresh_output oshape c q,
                                                (scast P, scast per, scast S))
                                      inp (ia, ib + of_nat q * scast per, ic) sizes) [0 ..< m]
                     else [])\<rparr>"
  using ok b
proof (induction m arbitrary: j c ib)
  case 0
  have "(\<lambda>i. if j \<le> i \<and> i < j + 0 then Some (fresh_output oshape c (i - j))
             else outputs c i) = outputs c"
    by (rule ext) auto
  then show ?case by simp
next
  case (Suc m)
  let ?c2 = "c\<lparr>outputs := (outputs c)(j \<mapsto> fresh_output oshape c 0),
            heap := heap c @ [if 0 < sint (P * per * S)
                              then copied_cells c inp oshape (ia, ib, ic) sizes
                              else replicate (num_elements oshape) None],
            allocs := Suc (allocs c),
            copies := copies c @ (if 0 < sint (P * per * S)
                       then [SplitCall (fresh_output oshape c 0, (scast P, scast per, scast S))
                               inp (ia, ib, ic) sizes]
                       else [])\<rparr>"
  have l: "[j ..< j + Suc m] = j # [Suc j ..< Suc j + m]"
    by (simp add: upt_conv_Cons del: upt_Suc)
  have ok2: "\<forall>q. alloc_ok ?c2 q" using Suc.prems(1) by simp
  have b2: "buf (fst inp) < length (heap ?c2)" using Suc.prems(2) by simp
  have fo: "fresh_output oshape ?c2 q = fresh_output oshape c (Suc q)" for q
    by (simp add: fresh_output_def)
  have cc: "copied_cells ?c2 inp oshape idx sizes = copied_cells c inp oshape idx sizes" for idx
    using Suc.prems(2) by (simp add: copied_cells_def nth_append)
  have st: "cpu_loop inp oshape (P, per, S) sizes [j ..< j + Suc m] (ia, ib, ic) c
          = cpu_loop inp oshape (P, per, S) sizes [Suc j ..< Suc j + m]
              (ia, ib + scast per, ic) ?c2"
    unfolding l using cpu_loop_step [of c inp oshape P per S sizes j _ "(ia, ib, ic)"]
      Suc.prems by simp
  have sd: "Suc j \<le> x \<Longrightarrow> Suc (x - Suc j) = x - j" for x
    by arith
  show ?case
    unfolding st Suc.IH [OF ok2 b2] fo cc upt_0_Suc_map
    by (rule OpKernelContext.equality)
       (auto simp add: fun_eq_iff sd algebra_simps o_def)
qed

lemma ComputeEasyCases_general:
  assumes "valid_split num_split c" "general_path a num_split c"
  shows "ComputeEasyCases a num_split c = (c, False)"
  using assms(2) by (subst ComputeEasyCases_valid [OF assms(1)]) (auto simp add: general_path_def)

lemma Compute_CPU_general:
  assumes v: "valid_split num_split c" and g: "general_path a num_split c"
    and st: "status c = OK" and ok: "\<forall>q. alloc_ok c q"
    and b: "buf (input1 c) < length (heap c)"
    and sd: "SetDims (shape (input1 c)) (input0 c) = (P, D, S)"
  shows "Compute_CPU a num_split c
     = c\<lparr>outputs := (\<lambda>i. if i < nat (sint num_split)
             then Some (fresh_output
                          (set_dim (shape (input1 c)) (nat (sint (input0 c)))
                             (scast (cdiv D num_split))) c i)
             else outputs c i),
          heap := heap c @ map (\<lambda>q. if 0 < sint (P * cdiv D num_split * S)
             then copied_cells c (input1 c, (scast P, scast D, scast S))
                    (set_dim (shape (input1 c)) (nat (sint (input0 c)))
                       (scast (cdiv D num_split)))
                    (0, of_nat q * scast (cdiv D num_split), 0)
                    (scast P, scast (cdiv D num_split), scast S)
             else replicate (num_elements
                    (set_dim (shape (input1 c)) (nat (sint (input0 c)))
                       (scast (cdiv D num_split)))) None) [0 ..< nat (sint num_split)],
          allocs := allocs c + nat (sint num_split),
          copies := copies c @ (if 0 < sint (P * cdiv D num_split * S)
             then map (\<lambda>q. SplitCall
                    (fresh_output
                       (set_dim (shape (input1 c)) (nat (sint (input0 c)))
                          (scast (cdiv D num_split))) c q,
                     (scast P, scast (cdiv D num_split), scast S))
                    (input1 c, (scast P, scast D, scast S))
                    (0, of_nat q * scast (cdiv D num_split), 0)
                    (scast P, scast (cdiv D num_split), scast S)) [0 ..< nat (sint num_split)]
             else [])\<rparr>"
proof -
  have b': "buf (fst (input1 c, (scast P :: int64, scast D :: int64, scast S :: int64)))
              < length (heap c)"
    using b by simp
  note loop = cpu_loop_closed [OF ok b', where j = 0 and m = "nat (sint num_split)"
      and ib = 0 and ia = 0 and ic = 0, simplified]
  show ?thesis
    unfolding Compute_CPU_def ComputeEasyCases_general [OF v g] prod.case Let_def sd
    using st by (simp add: loop cong: if_cong)
qed

subsection \<open>Row-major positions\<close>

lemma flat_index_less: "in_bounds ds cs \<Longrightarrow> flat_index ds cs < prod_list ds"
  unfolding in_bounds_def
proof (induction cs ds rule: list_all2_induct)
  case Nil
  then show ?case by simp
next
  case (Cons c cs d ds)
  have "c * prod_list ds + flat_index ds cs < c * prod_list ds + prod_list ds"
    using Cons.IH by simp
  also have "\<dots> = Suc c * prod_list ds" by simp
  also have "\<dots> \<le> d * prod_list ds"
    using Cons.hyps(1) by (intro mult_le_mono1) simp
  finally show ?case by simp
qed

lemma flat_index_append:
  "length cs = length ds \<Longrightarrow>
   flat_index (ds @ es) (cs @ fs) = flat_index ds cs * prod_list es + flat_index es fs"
proof (induction ds cs rule: flat_index.induct)
  case (1 d ds c cs)
  then show ?case by (simp add: algebra_simps)
qed simp_all

lemma flat_index_split:
  assumes "length cs = length ds" "k < length ds"
  shows "flat_index ds cs
       = (flat_index (take k ds) (take k cs) * ds ! k + cs ! k) * prod_list (drop (Suc k) ds)
         + flat_index (drop (Suc k) ds) (drop (Suc k) cs)"
proof -
  have ds: "ds = take k ds @ ds ! k # drop (Suc k) ds"
    using assms(2) by (rule id_take_nth_drop)
  have cs: "cs = take k cs @ cs ! k # drop (Suc k) cs"
    using assms by (intro id_take_nth_drop) simp
  have "flat_index ds cs
      = flat_index (take k ds @ ds ! k # drop (Suc k) ds) (take k cs @ cs ! k # drop (Suc k) cs)"
    using ds cs by simp
  also have "\<dots> = flat_index (take k ds) (take k cs) * prod_list (ds ! k # drop (Suc k) ds)
                  + flat_index (ds ! k # drop (Suc k) ds) (cs ! k # drop (Suc k) cs)"
    using assms by (intro flat_index_append) simp
  finally show ?thesis by (simp add: algebra_simps)
qed

lemma in_bounds_take: "in_bounds ds cs \<Longrightarrow> in_bounds (take k ds) (take k cs)"
  by (simp add: in_bounds_def list_all2_takeI)

lemma in_bounds_drop: "in_bounds ds cs \<Longrightarrow> in_bounds (drop k ds) (drop k cs)"
  by (simp add: in_bounds_def list_all2_dropI)

lemma in_bounds_length: "in_bounds ds cs \<Longrightarrow> length cs = length ds"
  by (simp add: in_bounds_def list_all2_lengthD)

lemma in_bounds_nth: "in_bounds ds cs \<Longrightarrow> k < length ds \<Longrightarrow> cs ! k < ds ! k"
  by (simp add: in_bounds_def list_all2_conv_all_nth)

subsection \<open>The collapsed sizes as integers\<close>

lemma dims_product_append: "dims_product (xs @ ys) = dims_product xs * dims_product ys"
  by (simp add: dims_product_def)

lemma dims_product_split:
  assumes "k < length s"
  shows "dims_product s = prefix_size s k * sint (s ! k) * suffix_size s k"
proof -
  have "dims_product s = dims_product (take k s @ s ! k # drop (Suc k) s)"
    using id_take_nth_drop [OF assms] by simp
  then show ?thesis
    by (simp add: dims_product_def prefix_size_def suffix_size_def)
qed

lemma dims_product_update:
  assumes "k < length s"
  shows "dims_product (s[k := x]) = prefix_size s k * sint x * suffix_size s k"
  by (simp add: upd_conv_take_nth_drop [OF assms] dims_product_def prefix_size_def
      suffix_size_def)

lemma prefix_size_nonneg: "valid_shape s \<Longrightarrow> 0 \<le> prefix_size s k"
  unfolding prefix_size_def
  by (rule dims_product_nonneg) (simp add: valid_shape_def list_all_iff, meson in_set_takeD)

lemma suffix_size_nonneg: "valid_shape s \<Longrightarrow> 0 \<le> suffix_size s k"
  unfolding suffix_size_def
  by (rule dims_product_nonneg) (simp add: valid_shape_def list_all_iff, meson in_set_dropD)

lemma sint_scast32: "sint (scast (w :: int32) :: int64) = sint w"
  by (rule sint_up_scast) (simp add: is_up)

lemma word_of_int_sint32: "(word_of_int (sint (w :: int32)) :: int32) = w"
  by simp

text \<open>The sizes the general path computes, for a shape whose sizes fit.\<close>

lemma general_sizes:
  assumes vs: "valid_shape s" and sp: "0 \<le> sint split_dim" and k: "sint split_dim < dims s"
    and n: "0 < sint num_split"
    and m: "sint (dim_size s (nat (sint split_dim))) mod sint num_split = 0"
    and fits: "fits_split s (nat (sint split_dim)) (sint num_split)"
    and sd: "SetDims s split_dim = (P, D, S)"
  shows "sint D = sint (dim_size s (nat (sint split_dim)))"
    and "sint (cdiv D num_split) = sint (dim_size s (nat (sint split_dim))) div sint num_split"
    and "(0 < sint (P * cdiv D num_split * S))
           = (0 < prefix_size s (nat (sint split_dim))
                    * (sint (dim_size s (nat (sint split_dim))) div sint num_split)
                    * suffix_size s (nat (sint split_dim)))"
    and "0 < prefix_size s (nat (sint split_dim))
               * (sint (dim_size s (nat (sint split_dim))) div sint num_split)
               * suffix_size s (nat (sint split_dim))
         \<Longrightarrow> sint P = prefix_size s (nat (sint split_dim))
             \<and> sint S = suffix_size s (nat (sint split_dim))"
    and "(P * cdiv D num_split * S = 0)
           = (prefix_size s (nat (sint split_dim))
                * (sint (dim_size s (nat (sint split_dim))) div sint num_split)
                * suffix_size s (nat (sint split_dim)) = 0)"
proof -
  let ?k = "nat (sint split_dim)"
  let ?Pt = "prefix_size s ?k" and ?Dt = "sint (dim_size s ?k)" and ?St = "suffix_size s ?k"
  let ?nt = "sint num_split"
  let ?count = "?Pt * (?Dt div ?nt) * ?St"
  have kl: "?k < length s" using sp k by (simp add: dims_def)
  have w: "P = word_of_int ?Pt" "D = ucast (dim_size s ?k)" "S = word_of_int ?St"
    using SetDims_words [OF sp k] sd by simp_all
  have D0: "0 \<le> ?Dt" using valid_shape_nth [OF vs kl] by (simp add: dim_size_def)
  have P0: "0 \<le> ?Pt" and S0: "0 \<le> ?St"
    using vs by (rule prefix_size_nonneg, rule suffix_size_nonneg)
  have Dlt: "?Dt < 2 ^ 31" using fits by (simp add: fits_split_def Let_def)
  have Df: "fits_int32 ?Dt" using D0 Dlt by (simp add: fits_int32_def)
  show sD: "sint D = ?Dt" using Df by (simp add: w sint_ucast_down)
  show per: "sint (cdiv D num_split) = ?Dt div ?nt"
    using cdiv_nonneg [of D num_split] D0 n by (simp add: sD)
  have q0: "0 \<le> ?Dt div ?nt" using D0 n by (simp add: pos_imp_zdiv_nonneg_iff)
  have ge: "0 \<le> ?count" using P0 q0 S0 by simp
  have "P * cdiv D num_split * S
          = word_of_int ?Pt * word_of_int (sint (cdiv D num_split)) * word_of_int ?St"
    unfolding w(1,3) word_of_int_sint32 ..
  also have "\<dots> = word_of_int ?count"
    by (simp add: per)
  finally have pw: "P * cdiv D num_split * S = word_of_int ?count" .
  then have sv: "sint (P * cdiv D num_split * S) = int32_value ?count"
    by (simp only: int32_value_def)
  have alt: "?count = 0 \<or> ?Pt < 2 ^ 31 \<and> ?St < 2 ^ 31 \<and> 0 < int32_value ?count"
    using fits by (simp add: fits_split_def Let_def)
  have zero: "P * cdiv D num_split * S = 0" if "?count = 0"
    unfolding pw that by simp
  have posw: "0 < sint (P * cdiv D num_split * S)" and posc: "0 < ?count"
    and small: "?Pt < 2 ^ 31" "?St < 2 ^ 31" if "?count \<noteq> 0"
  proof -
    from that alt have a: "?Pt < 2 ^ 31 \<and> ?St < 2 ^ 31 \<and> 0 < int32_value ?count"
      by blast
    from a show "0 < sint (P * cdiv D num_split * S)" unfolding sv by blast
    from that ge show "0 < ?count" by linarith
    from a show "?Pt < 2 ^ 31" "?St < 2 ^ 31" by blast+
  qed
  show "(0 < sint (P * cdiv D num_split * S)) = (0 < ?count)"
  proof (cases "?count = 0")
    case True
    have "sint (P * cdiv D num_split * S) = 0" unfolding zero [OF True] by simp
    then show ?thesis unfolding True by simp
  next
    case False
    from posw [OF False] posc [OF False] show ?thesis by blast
  qed
  show "(P * cdiv D num_split * S = 0) = (?count = 0)"
  proof (cases "?count = 0")
    case True
    with zero show ?thesis by blast
  next
    case False
    from posw [OF False] have "P * cdiv D num_split * S \<noteq> 0" by auto
    with False show ?thesis by blast
  qed
  show "sint P = ?Pt \<and> sint S = ?St" if pos: "0 < ?count"
  proof -
    from pos have "?count \<noteq> 0" by linarith
    from small [OF this] have "?Pt < 2 ^ 31" and "?St < 2 ^ 31" .
    then have "fits_int32 ?Pt" and "fits_int32 ?St"
      using P0 S0 by (simp_all add: fits_int32_def)
    then show ?thesis by (simp add: w sint32_word_of_int)
  qed
qed

text \<open>
  Shapes whose split-axis size and per-output number of elements are below
  \<open>2\<^sup>3\<^sup>1\<close> fit, whatever the number of elements of the whole input is.
\<close>

lemma fits_split_per_output:
  assumes vs: "valid_shape s" and kl: "k < length s" and n: "0 < n"
    and d: "sint (dim_size s k) < 2 ^ 31"
    and c: "prefix_size s k * (sint (dim_size s k) div n) * suffix_size s k < 2 ^ 31"
  shows "fits_split s k n"
proof -
  let ?Pt = "prefix_size s k" and ?Dt = "sint (dim_size s k)" and ?St = "suffix_size s k"
  let ?count = "?Pt * (?Dt div n) * ?St"
  have D0: "0 \<le> ?Dt" using valid_shape_nth [OF vs kl] by (simp add: dim_size_def)
  have P0: "0 \<le> ?Pt" and S0: "0 \<le> ?St"
    using vs by (rule prefix_size_nonneg, rule suffix_size_nonneg)
  have q0: "0 \<le> ?Dt div n" using D0 n by (simp add: pos_imp_zdiv_nonneg_iff)
  have ge: "0 \<le> ?count" using P0 q0 S0 by simp
  have "?count = 0 \<or> ?Pt < 2 ^ 31 \<and> ?St < 2 ^ 31 \<and> 0 < int32_value ?count"
  proof (cases "?count = 0")
    case True
    then show ?thesis by simp
  next
    case False
    with ge have pos: "0 < ?count" by linarith
    have Pp: "0 < ?Pt" and qp: "0 < ?Dt div n" and Sp: "0 < ?St"
      using pos P0 q0 S0 by (auto simp add: zero_less_mult_iff)
    have "?Pt * 1 \<le> ?Pt * ((?Dt div n) * ?St)"
      using Pp qp Sp by (intro mult_left_mono) (simp_all add: int_one_le_iff_zero_less)
    then have Pl: "?Pt < 2 ^ 31" using c by (simp add: mult.assoc)
    have "1 * ?St \<le> (?Pt * (?Dt div n)) * ?St"
      using Pp qp Sp by (intro mult_right_mono) (simp_all add: int_one_le_iff_zero_less)
    then have Sl: "?St < 2 ^ 31" using c by simp
    have "fits_int32 ?count" using ge c by (simp add: fits_int32_def)
    then have "int32_value ?count = ?count"
      unfolding int32_value_def by (rule sint32_word_of_int)
    with pos Pl Sl show ?thesis by presburger
  qed
  with d show ?thesis unfolding fits_split_def Let_def by blast
qed

subsection \<open>Blocks of a 3D view\<close>

lemma block_index:
  fixes p j z per S :: nat
  assumes "j < per" "z < S"
  shows "((p * per + j) * S + z) div (per * S) = p"
    and "((p * per + j) * S + z) div S mod per = j"
    and "((p * per + j) * S + z) mod S = z"
proof -
  have d: "((p * per + j) * S + z) div S = p * per + j"
    using assms(2) by simp
  show "((p * per + j) * S + z) div S mod per = j"
    using assms(1) by (simp add: d)
  show "((p * per + j) * S + z) mod S = z"
    using assms(2) by simp
  have "((p * per + j) * S + z) div (S * per) = (p * per + j) div per"
    by (simp only: div_mult2_eq d)
  then show "((p * per + j) * S + z) div (per * S) = p"
    using assms(1) by (simp add: mult.commute)
qed

lemma block_index_less:
  fixes p j z per S P :: nat
  assumes "p < P" "j < per" "z < S"
  shows "(p * per + j) * S + z < P * per * S"
proof -
  have "p * per + j < p * per + per" using assms(2) by simp
  also have "\<dots> = Suc p * per" by simp
  also have "\<dots> \<le> P * per" using assms(1) by (intro mult_le_mono1) simp
  finally have a: "Suc (p * per + j) \<le> P * per" by simp
  have "(p * per + j) * S + z < (p * per + j) * S + S" using assms(3) by simp
  also have "\<dots> = Suc (p * per + j) * S" by simp
  also have "\<dots> \<le> P * per * S" using a by (rule mult_le_mono1)
  finally show ?thesis .
qed

lemma slice3_length: "length (slice3 xs d i (ea, eb, ec)) = ix ea * ix eb * ix ec"
  by (cases d; cases i) (simp add: slice3_def)

lemma slice3_nth:
  assumes "k < ix ea * ix eb * ix ec"
  shows "slice3 xs (da, db, dc) (ia, ib, ic) (ea, eb, ec) ! k
       = rd xs (((ix ia + k div (ix eb * ix ec)) * ix db
                  + (ix ib + k div ix ec mod ix eb)) * ix dc + (ix ic + k mod ix ec))"
  using assms by (simp add: slice3_def)

lemma write_at_full: "length vs = m \<Longrightarrow> write_at 0 vs (replicate m x) = vs"
  by (simp add: write_at_def)

lemma ix_scast32: "ix (scast (w :: int32)) = nat (sint w)"
  by (simp add: ix_def sint_scast32)

lemma ix_zero: "ix 0 = 0"
  by (simp add: ix_def)

lemma slice3_split_block:
  assumes len: "P * D * S \<le> length src" and q: "q * per + per \<le> D"
    and e: "ix da = P" "ix db = D" "ix dc = S" "ix eb = per" "ix ib = q * per"
  shows "slice3 src (da, db, dc) (0, ib, 0) (da, eb, dc) = split_block (take (P * D * S) src) P D S per q"
proof (rule nth_equalityI)
  show "length (slice3 src (da, db, dc) (0, ib, 0) (da, eb, dc))
          = length (split_block (take (P * D * S) src) P D S per q)"
    by (simp add: slice3_length split_block_def e)
next
  fix m
  assume "m < length (slice3 src (da, db, dc) (0, ib, 0) (da, eb, dc))"
  then have m: "m < P * per * S" by (simp add: slice3_length e)
  then have per0: "0 < per" and S0: "0 < S" by (auto intro: Nat.gr0I)
  let ?p = "m div (per * S)" and ?j = "m div S mod per" and ?z = "m mod S"
  have p: "?p < P" using m per0 S0 by (simp add: less_mult_imp_div_less mult.assoc)
  have j: "q * per + ?j < D" using q per0 mod_less_divisor [OF per0, of "m div S"] by linarith
  have z: "?z < S" using S0 by simp
  have lt: "(?p * D + (q * per + ?j)) * S + ?z < P * D * S"
    using p j z by (rule block_index_less)
  have "slice3 src (da, db, dc) (0, ib, 0) (da, eb, dc) ! m
          = rd src ((?p * D + (q * per + ?j)) * S + ?z)"
    using m by (simp add: slice3_nth e ix_zero)
  also have "\<dots> = take (P * D * S) src ! ((?p * D + (q * per + ?j)) * S + ?z)"
    using lt len by (simp add: rd_def)
  finally show "slice3 src (da, db, dc) (0, ib, 0) (da, eb, dc) ! m
          = split_block (take (P * D * S) src) P D S per q ! m"
    using m by (simp add: split_block_def)
qed

lemma scast_of_nat:
  assumes "sint (w :: int32) = int m"
  shows "(scast w :: int64) = of_nat m"
  unfolding scast_eq assms by simp

lemma counts_facts:
  assumes wf: "wf_context c" and v: "valid_split num_split c"
  shows "split_axis c < length (shape (input1 c))"
    and "int (prefix_count c) = prefix_size (shape (input1 c)) (split_axis c)"
    and "int (axis_count c) = sint (dim_size (shape (input1 c)) (split_axis c))"
    and "int (suffix_count c) = suffix_size (shape (input1 c)) (split_axis c)"
    and "int (per_split num_split c)
           = sint (dim_size (shape (input1 c)) (split_axis c)) div sint num_split"
    and "0 < nat (sint num_split)"
    and "nat (sint num_split) * per_split num_split c = axis_count c"
    and "num_elements (shape (input1 c)) = prefix_count c * axis_count c * suffix_count c"
proof -
  have vs: "valid_shape (shape (input1 c))" using wf by (simp add: wf_context_def)
  note vi = valid_split_ints [OF v vs]
  show k: "split_axis c < length (shape (input1 c))" using vi(1) by (simp add: split_axis_def)
  show P: "int (prefix_count c) = prefix_size (shape (input1 c)) (split_axis c)"
    using prefix_size_nonneg [OF vs] by (simp add: prefix_count_def)
  show D: "int (axis_count c) = sint (dim_size (shape (input1 c)) (split_axis c))"
    using vi(2) by (simp add: axis_count_def split_axis_def)
  show S: "int (suffix_count c) = suffix_size (shape (input1 c)) (split_axis c)"
    using suffix_size_nonneg [OF vs] by (simp add: suffix_count_def)
  show n: "0 < nat (sint num_split)" using vi(3) by simp
  have nn: "int (nat (sint num_split)) = sint num_split" using vi(3) by simp
  show "int (per_split num_split c)
           = sint (dim_size (shape (input1 c)) (split_axis c)) div sint num_split"
    unfolding per_split_def zdiv_int D nn ..
  have "axis_count c mod nat (sint num_split) = 0"
  proof -
    have "int (axis_count c mod nat (sint num_split)) = 0"
      unfolding zmod_int D nn using vi(4) by (simp add: split_axis_def)
    then show ?thesis by simp
  qed
  then show "nat (sint num_split) * per_split num_split c = axis_count c"
    unfolding per_split_def
    using mult_div_mod_eq [of "nat (sint num_split)" "axis_count c"] by simp
  have "int (num_elements (shape (input1 c)))
          = int (prefix_count c) * int (axis_count c) * int (suffix_count c)"
    unfolding P D S using dims_product_split [OF k] dims_product_nonneg [OF vs]
    by (simp add: num_elements_def dim_size_def)
  then show "num_elements (shape (input1 c)) = prefix_count c * axis_count c * suffix_count c"
    by (metis of_nat_eq_iff of_nat_mult)
qed

lemma general_path_state:
  assumes wf: "wf_context c" and v: "valid_split num_split c"
    and g: "general_path a num_split c" and ok: "\<forall>q. alloc_ok c q"
    and fits: "fits_split (shape (input1 c)) (split_axis c) (sint num_split)"
  shows "Compute_CPU a num_split c
     = c\<lparr>outputs := (\<lambda>i. if i < nat (sint num_split)
                           then Some (split_output num_split c i) else outputs c i),
          heap := heap c @ map (split_block (tensor_cells c (input1 c)) (prefix_count c)
                                  (axis_count c) (suffix_count c) (per_split num_split c))
                             [0 ..< nat (sint num_split)],
          allocs := allocs c + nat (sint num_split),
          copies := copies c @
            (if 0 < prefix_count c * per_split num_split c * suffix_count c
             then map (\<lambda>q. SplitCall
                    (split_output num_split c q,
                     (of_nat (prefix_count c), of_nat (per_split num_split c),
                      of_nat (suffix_count c)))
                    (input1 c,
                     (of_nat (prefix_count c), of_nat (axis_count c),
                      of_nat (suffix_count c)))
                    (0, of_nat (q * per_split num_split c), 0)
                    (of_nat (prefix_count c), of_nat (per_split num_split c),
                     of_nat (suffix_count c))) [0 ..< nat (sint num_split)]
             else [])\<rparr>"
proof -
  let ?s = "shape (input1 c)" and ?k = "split_axis c" and ?nn = "nat (sint num_split)"
  let ?Pn = "prefix_count c" and ?Dn = "axis_count c" and ?Sn = "suffix_count c"
  let ?per = "per_split num_split c"
  let ?xs = "tensor_cells c (input1 c)"
  let ?src = "drop (base (input1 c)) (heap c ! buf (input1 c))"
  obtain P D S where sd: "SetDims ?s (input0 c) = (P, D, S)"
    by (cases "SetDims ?s (input0 c)") auto
  have vs: "valid_shape ?s" and st: "status c = OK" and b: "buf (input1 c) < length (heap c)"
    and len: "num_elements ?s \<le> length ?src"
    using wf by (auto simp add: wf_context_def)
  note vi = valid_split_ints [OF v vs]
  note cf = counts_facts [OF wf v]
  have sp: "0 \<le> sint (input0 c)" and kd: "sint (input0 c) < dims ?s"
    using v by (simp_all add: valid_split_def)
  note gs = general_sizes [OF vs sp kd vi(3) vi(4) fits [unfolded split_axis_def] sd,
      folded split_axis_def]
  let ?per32 = "cdiv D num_split"
  let ?oshape = "set_dim ?s (nat (sint (input0 c))) (scast ?per32)"
  have per: "sint ?per32 = int ?per" using gs(2) cf(5) by simp
  have sper: "(scast ?per32 :: int64) = of_nat ?per" using per by (rule scast_of_nat)
  have sD: "(scast D :: int64) = of_nat ?Dn" using gs(1) cf(3) by (intro scast_of_nat) simp
  have osh: "?oshape = ?s[?k := of_nat ?per]"
    by (simp add: set_dim_def sper split_axis_def)
  have fo: "fresh_output ?oshape c q = split_output num_split c q" for q
    unfolding osh by (simp add: fresh_output_def split_output_def)
  have cond: "(0 < sint (P * ?per32 * S)) = (0 < ?Pn * ?per * ?Sn)"
    unfolding gs(3) cf(2,4,5) [symmetric] by (metis of_nat_0_less_iff of_nat_mult)
  have sint_per64: "sint (of_nat ?per :: int64) = int ?per"
    using per sper [symmetric] by (simp add: sint_scast32)
  have ne: "num_elements ?oshape = ?Pn * ?per * ?Sn"
  proof -
    have "dims_product ?oshape = int ?Pn * int ?per * int ?Sn"
      unfolding osh dims_product_update [OF cf(1)] sint_per64 cf(2,4) ..
    then show ?thesis by (simp add: num_elements_def nat_mult_distrib)
  qed
  have xs: "take (?Pn * ?Dn * ?Sn) ?src = ?xs"
    by (simp add: tensor_cells_def cf(8))
  have cells: "(if 0 < sint (P * ?per32 * S)
                then copied_cells c (input1 c, (scast P, scast D, scast S)) ?oshape
                       (0, of_nat q * scast ?per32, 0) (scast P, scast ?per32, scast S)
                else replicate (num_elements ?oshape) None)
               = split_block ?xs ?Pn ?Dn ?Sn ?per q" if q: "q < ?nn" for q
  proof (cases "0 < ?Pn * ?per * ?Sn")
    case False
    then have "\<not> 0 < sint (P * ?per32 * S)" using cond by simp
    then show ?thesis using False by (simp add: ne split_block_def)
  next
    case True
    then have "0 < prefix_size ?s ?k * (sint (dim_size ?s ?k) div sint num_split)
                     * suffix_size ?s ?k"
      using cf(2,4,5) by (metis of_nat_0_less_iff of_nat_mult)
    from gs(4) [OF this] have sP: "sint P = int ?Pn" and sS: "sint S = int ?Sn"
      using cf(2,4) by simp_all
    have qle: "q * ?per + ?per \<le> ?Dn"
    proof -
      have "Suc q * ?per \<le> ?nn * ?per" using q by (intro mult_le_mono1) simp
      then show ?thesis using cf(7) by simp
    qed
    have "int q * sint (of_nat ?per :: int64) \<le> sint (dim_size ?s ?k)"
      unfolding sint_per64 cf(3) [symmetric] using qle
      by (metis add_leE of_nat_le_iff of_nat_mult)
    then have "sint (of_nat q * (of_nat ?per :: int64)) = int q * sint (of_nat ?per :: int64)"
      by (intro sint_int64_mult) (simp_all add: sint_per64)
    then have ixq: "ix (of_nat q * scast ?per32) = q * ?per"
      by (simp add: ix_def sper sint_per64 nat_mult_distrib)
    have e: "ix (scast P) = ?Pn" "ix (scast D) = ?Dn" "ix (scast S) = ?Sn"
      "ix (scast ?per32) = ?per"
      using sP sS gs(1) cf(3) per by (simp_all add: ix_scast32)
    have len': "?Pn * ?Dn * ?Sn \<le> length ?src" using len cf(8) by simp
    have "slice3 ?src (scast P, scast D, scast S) (0, of_nat q * scast ?per32, 0)
            (scast P, scast ?per32, scast S)
          = split_block ?xs ?Pn ?Dn ?Sn ?per q"
      using slice3_split_block [OF len' qle e(1,2,3,4) ixq] by (simp only: xs)
    moreover have "length (split_block ?xs ?Pn ?Dn ?Sn ?per q) = ?Pn * ?per * ?Sn"
      by (simp add: split_block_def)
    moreover have "0 < sint (P * ?per32 * S)" using True cond by simp
    ultimately show ?thesis
      by (simp add: copied_cells_def ne write_at_full)
  qed
  have calls: "0 < ?Pn * ?per * ?Sn \<Longrightarrow>
      SplitCall (fresh_output ?oshape c q, (scast P, scast ?per32, scast S))
        (input1 c, (scast P, scast D, scast S))
        (0, of_nat q * scast ?per32, 0) (scast P, scast ?per32, scast S)
      = SplitCall (split_output num_split c q, (of_nat ?Pn, of_nat ?per, of_nat ?Sn))
          (input1 c, (of_nat ?Pn, of_nat ?Dn, of_nat ?Sn))
          (0, of_nat (q * ?per), 0) (of_nat ?Pn, of_nat ?per, of_nat ?Sn)" for q
  proof -
    assume "0 < ?Pn * ?per * ?Sn"
    then have "0 < prefix_size ?s ?k * (sint (dim_size ?s ?k) div sint num_split)
                     * suffix_size ?s ?k"
      using cf(2,4,5) by (metis of_nat_0_less_iff of_nat_mult)
    from gs(4) [OF this] have sP: "sint P = int ?Pn" and sS: "sint S = int ?Sn"
      using cf(2,4) by simp_all
    show ?thesis
      unfolding fo by (simp add: sper sD scast_of_nat [OF sP] scast_of_nat [OF sS])
  qed
  have H: "map (\<lambda>q. if 0 < sint (P * ?per32 * S)
                then copied_cells c (input1 c, (scast P, scast D, scast S)) ?oshape
                       (0, of_nat q * scast ?per32, 0) (scast P, scast ?per32, scast S)
                else replicate (num_elements ?oshape) None) [0 ..< ?nn]
           = map (split_block ?xs ?Pn ?Dn ?Sn ?per) [0 ..< ?nn]"
    by (rule map_cong [OF refl]) (simp only: cells atLeastLessThan_iff set_upt)
  have C: "(if 0 < sint (P * ?per32 * S)
            then map (\<lambda>q. SplitCall (split_output num_split c q,
                                        (scast P, scast ?per32, scast S))
                    (input1 c, (scast P, scast D, scast S))
                    (0, of_nat q * scast ?per32, 0) (scast P, scast ?per32, scast S))
                   [0 ..< ?nn]
            else [])
         = (if 0 < ?Pn * ?per * ?Sn
            then map (\<lambda>q. SplitCall
                    (split_output num_split c q, (of_nat ?Pn, of_nat ?per, of_nat ?Sn))
                    (input1 c, (of_nat ?Pn, of_nat ?Dn, of_nat ?Sn))
                    (0, of_nat (q * ?per), 0) (of_nat ?Pn, of_nat ?per, of_nat ?Sn))
                   [0 ..< ?nn]
            else [])"
  proof (cases "0 < ?Pn * ?per * ?Sn")
    case True
    then show ?thesis unfolding cond by (simp only: calls [unfolded fo] if_True)
  next
    case False
    then show ?thesis unfolding cond by (simp only: if_False)
  qed
  show ?thesis
    unfolding Compute_CPU_general [OF v g st ok b sd] fo H C ..
qed

subsection \<open>Coordinates and the collapsed view\<close>

lemma prod_extents: "valid_shape s \<Longrightarrow> prod_list (extents s) = nat (dims_product s)"
proof (induction s)
  case Nil
  then show ?case by (simp add: extents_def dims_product_def)
next
  case (Cons d s)
  then have "valid_shape s" and d: "0 \<le> sint d" by (simp_all add: valid_shape_def)
  with Cons.IH have "prod_list (extents s) = nat (dims_product s)" by simp
  then show ?case
    using d by (simp add: extents_def dims_product_def nat_mult_distrib)
qed

lemma valid_shape_take: "valid_shape s \<Longrightarrow> valid_shape (take k s)"
  by (simp add: valid_shape_def list_all_iff) (meson in_set_takeD)

lemma valid_shape_drop: "valid_shape s \<Longrightarrow> valid_shape (drop k s)"
  by (simp add: valid_shape_def list_all_iff) (meson in_set_dropD)

lemma extents_take: "take k (extents s) = extents (take k s)"
  by (simp add: extents_def take_map)

lemma extents_drop: "drop k (extents s) = extents (drop k s)"
  by (simp add: extents_def drop_map)

lemma sint_of_nat64: "m < 2 ^ 63 \<Longrightarrow> sint (of_nat m :: int64) = int m"
  using sint64_word_of_int [of "int m"] by simp

lemma split_block_nth:
  assumes "p < P" "j < per" "z < S"
  shows "split_block xs P D S per q ! ((p * per + j) * S + z)
       = xs ! ((p * D + (q * per + j)) * S + z)"
  using block_index_less [OF assms] block_index [OF assms(2,3), of p]
  by (simp add: split_block_def)

text \<open>The position of a coordinate vector, through the collapsed 3-axis view.\<close>

lemma flat_index_collapsed:
  assumes vs: "valid_shape s" and k: "k < length s" and lc: "length cs = length s"
  shows "flat_index ((extents s)[k := e]) (cs[k := x])
           = (flat_index (extents (take k s)) (take k cs) * e + x) * nat (suffix_size s k)
             + flat_index (extents (drop (Suc k) s)) (drop (Suc k) cs)"
proof -
  let ?od = "(extents s)[k := e]"
  have kl: "k < length ?od" using k by (simp add: extents_def)
  have tk: "take k ?od = extents (take k s)" by (simp add: extents_take)
  have dr: "drop (Suc k) ?od = extents (drop (Suc k) s)" by (simp add: extents_drop)
  have lc': "length (cs[k := x]) = length ?od" using lc by (simp add: extents_def)
  show ?thesis
    using flat_index_split [OF lc' kl] kl lc k
    by (simp add: tk dr prod_extents [OF valid_shape_drop [OF vs]] suffix_size_def)
qed

lemma in_bounds_collapsed:
  assumes vs: "valid_shape s" and k: "k < length s" and ib: "in_bounds ((extents s)[k := e]) cs"
  shows "flat_index (extents (take k s)) (take k cs) < nat (prefix_size s k)"
    and "flat_index (extents (drop (Suc k) s)) (drop (Suc k) cs) < nat (suffix_size s k)"
    and "cs ! k < e" and "length cs = length s"
proof -
  let ?od = "(extents s)[k := e]"
  have kl: "k < length ?od" using k by (simp add: extents_def)
  have tk: "take k ?od = extents (take k s)" by (simp add: extents_take)
  have dr: "drop (Suc k) ?od = extents (drop (Suc k) s)" by (simp add: extents_drop)
  show "flat_index (extents (take k s)) (take k cs) < nat (prefix_size s k)"
    using flat_index_less [OF in_bounds_take [OF ib, of k]]
    by (simp add: tk prod_extents [OF valid_shape_take [OF vs]] prefix_size_def)
  show "flat_index (extents (drop (Suc k) s)) (drop (Suc k) cs) < nat (suffix_size s k)"
    using flat_index_less [OF in_bounds_drop [OF ib, of "Suc k"]]
    by (simp add: dr prod_extents [OF valid_shape_drop [OF vs]] suffix_size_def)
  show "cs ! k < e" using in_bounds_nth [OF ib kl] kl by simp
  show "length cs = length s" using in_bounds_length [OF ib] by (simp add: extents_def)
qed

lemma list_update_same_id: "k < length xs \<Longrightarrow> xs ! k = v \<Longrightarrow> xs[k := v] = xs"
  by (metis list_update_id)

subsection \<open>The outputs of the general path\<close>

text \<open>
  C1, as amended. Take a valid invocation that takes the general path, whose
  allocations are granted and whose sizes fit the 32-bit arithmetic: the split-axis
  size is below \<open>2\<^sup>3\<^sup>1\<close> and, unless the outputs are empty, the prefix and suffix
  sizes are below \<open>2\<^sup>3\<^sup>1\<close> and the 32-bit product
  \<open>prefix \<sqdot> per_split \<sqdot> suffix\<close> that the executor tests is positive (as it is
  whenever one output has fewer than \<open>2\<^sup>3\<^sup>1\<close> elements; the number of elements of
  the whole input is not bounded). Then the CPU executor ends without error, and for
  every \<open>i\<close> below
  \<open>num_split\<close> output \<open>i\<close> is a tensor on a fresh buffer, with the shape of the
  input but for dimension \<open>split_dim\<close>, which is \<open>split_dim_size / num_split\<close>;
  at every coordinate vector of that shape it holds the element that the input
  holds at the same coordinates but for the split axis, where the index is
  \<open>i \<sqdot> per_split\<close> more. When the outputs are not empty, the copy for output
  \<open>q\<close> is one invocation of the strided-copy primitive on the 3D view
  \<open>(prefix, split_dim_size, suffix)\<close> of the input, from \<open>(0, q \<sqdot> per_split, 0)\<close>
  with extents \<open>(prefix, per_split, suffix)\<close>.
\<close>

theorem general_path_outputs:
  assumes wf: "wf_context c" and v: "valid_split num_split c"
    and g: "general_path a num_split c" and ok: "\<forall>q. alloc_ok c q"
    and fits: "fits_split (shape (input1 c)) (split_axis c) (sint num_split)"
    and i: "i < nat (sint num_split)"
  shows "status (Compute_CPU a num_split c) = OK
    \<and> (\<exists>t. outputs (Compute_CPU a num_split c) i = Some t
          \<and> length (heap c) \<le> buf t
          \<and> shape t = (shape (input1 c))[split_axis c := of_nat (per_split num_split c)]
          \<and> extents (shape t)
               = (extents (shape (input1 c)))
                   [split_axis c := axis_count c div nat (sint num_split)]
          \<and> length (tensor_cells (Compute_CPU a num_split c) t) = prod_list (extents (shape t))
          \<and> (\<forall>cs. in_bounds (extents (shape t)) cs \<longrightarrow>
                 tensor_cells (Compute_CPU a num_split c) t ! flat_index (extents (shape t)) cs
                 = tensor_cells c (input1 c)
                     ! flat_index (extents (shape (input1 c)))
                         (cs[split_axis c := cs ! split_axis c + i * per_split num_split c])))
    \<and> copies (Compute_CPU a num_split c)
        = copies c @
            (if 0 < prefix_count c * per_split num_split c * suffix_count c
             then map (\<lambda>q. SplitCall
                    (split_output num_split c q,
                     (of_nat (prefix_count c), of_nat (per_split num_split c),
                      of_nat (suffix_count c)))
                    (input1 c,
                     (of_nat (prefix_count c), of_nat (axis_count c),
                      of_nat (suffix_count c)))
                    (0, of_nat (q * per_split num_split c), 0)
                    (of_nat (prefix_count c), of_nat (per_split num_split c),
                     of_nat (suffix_count c))) [0 ..< nat (sint num_split)]
             else [])"
proof -
  let ?r = "Compute_CPU a num_split c"
  let ?s = "shape (input1 c)" and ?k = "split_axis c" and ?nn = "nat (sint num_split)"
  let ?Pn = "prefix_count c" and ?Dn = "axis_count c" and ?Sn = "suffix_count c"
  let ?per = "per_split num_split c"
  let ?xs = "tensor_cells c (input1 c)"
  let ?t = "split_output num_split c i"
  let ?od = "(extents ?s)[?k := ?per]"
  note gs = general_path_state [OF wf v g ok fits]
  note cf = counts_facts [OF wf v]
  have vs: "valid_shape ?s" and st: "status c = OK" using wf by (simp_all add: wf_context_def)
  have perD: "?per \<le> ?Dn" unfolding per_split_def by (rule div_le_dividend)
  have "int ?Dn < 2 ^ 63" unfolding cf(3) by (rule sint64_bounds)
  then have "?per < 2 ^ 63" using perD by simp
  then have sper: "sint (of_nat ?per :: int64) = int ?per" by (rule sint_of_nat64)
  have ext: "extents (shape ?t) = ?od"
    by (simp add: split_output_def extents_def map_update sper)
  have Dk: "extents ?s ! ?k = ?Dn"
    using cf(1) by (simp add: extents_def axis_count_def dim_size_def)
  have kl: "?k < length (extents ?s)" using cf(1) by (simp add: extents_def)
  have ids: "(extents ?s)[?k := ?Dn] = extents ?s"
    using kl Dk by (rule list_update_same_id)
  have PS: "nat (prefix_size ?s ?k) = ?Pn" "nat (suffix_size ?s ?k) = ?Sn"
    by (simp_all add: prefix_count_def suffix_count_def)
  have pod: "prod_list ?od = ?Pn * ?per * ?Sn"
  proof -
    have "?od = take ?k (extents ?s) @ ?per # drop (Suc ?k) (extents ?s)"
      using kl by (rule upd_conv_take_nth_drop)
    then show ?thesis
      by (simp add: extents_take extents_drop prod_extents [OF valid_shape_take [OF vs]]
          prod_extents [OF valid_shape_drop [OF vs]] PS [unfolded prefix_size_def suffix_size_def])
  qed
  have vt: "valid_shape (shape ?t)"
    using vs by (auto simp add: split_output_def valid_shape_def list_all_iff sper
        dest!: set_update_subset_insert [THEN subsetD])
  have ne: "num_elements (shape ?t) = ?Pn * ?per * ?Sn"
    using prod_extents [OF vt] by (simp add: num_elements_def ext pod)
  have out: "outputs ?r i = Some ?t" using i by (simp add: gs)
  have hp: "heap ?r ! buf ?t = split_block ?xs ?Pn ?Dn ?Sn ?per i"
    using i by (simp add: gs split_output_def nth_append)
  have cells: "tensor_cells ?r ?t = split_block ?xs ?Pn ?Dn ?Sn ?per i"
    unfolding tensor_cells_def hp ne by (simp add: split_output_def split_block_def)
  have len: "length (tensor_cells ?r ?t) = prod_list (extents (shape ?t))"
    unfolding cells ext pod by (simp add: split_block_def)
  have content: "tensor_cells ?r ?t ! flat_index (extents (shape ?t)) cs
                 = ?xs ! flat_index (extents ?s) (cs[?k := cs ! ?k + i * ?per])"
    if ib: "in_bounds (extents (shape ?t)) cs" for cs
  proof -
    let ?p = "flat_index (extents (take ?k ?s)) (take ?k cs)"
    let ?z = "flat_index (extents (drop (Suc ?k) ?s)) (drop (Suc ?k) cs)"
    note b = in_bounds_collapsed [OF vs cf(1) ib [unfolded ext], unfolded PS]
    have o: "flat_index ?od cs = (?p * ?per + cs ! ?k) * ?Sn + ?z"
      using flat_index_collapsed [OF vs cf(1) b(4), of ?per "cs ! ?k"] by (simp add: PS)
    have "flat_index ((extents ?s)[?k := ?Dn]) (cs[?k := cs ! ?k + i * ?per])
            = (?p * ?Dn + (cs ! ?k + i * ?per)) * ?Sn + ?z"
      using flat_index_collapsed [OF vs cf(1) b(4), of ?Dn "cs ! ?k + i * ?per"]
      by (simp add: PS)
    then have inp: "flat_index (extents ?s) (cs[?k := cs ! ?k + i * ?per])
            = (?p * ?Dn + (i * ?per + cs ! ?k)) * ?Sn + ?z"
      unfolding ids by (simp add: add.commute)
    show ?thesis
      unfolding cells ext o inp using b(1,3,2) by (rule split_block_nth)
  qed
  have "\<exists>t. outputs ?r i = Some t
          \<and> length (heap c) \<le> buf t
          \<and> shape t = ?s[?k := of_nat ?per]
          \<and> extents (shape t) = (extents ?s)[?k := ?Dn div ?nn]
          \<and> length (tensor_cells ?r t) = prod_list (extents (shape t))
          \<and> (\<forall>cs. in_bounds (extents (shape t)) cs \<longrightarrow>
                 tensor_cells ?r t ! flat_index (extents (shape t)) cs
                 = ?xs ! flat_index (extents ?s) (cs[?k := cs ! ?k + i * ?per]))"
  proof (intro exI conjI allI impI)
    show "outputs ?r i = Some ?t" by (rule out)
    show "length (heap c) \<le> buf ?t" by (simp add: split_output_def)
    show "shape ?t = ?s[?k := of_nat ?per]" by (simp add: split_output_def)
    show "extents (shape ?t) = (extents ?s)[?k := ?Dn div ?nn]"
      using ext by (simp add: per_split_def)
    show "length (tensor_cells ?r ?t) = prod_list (extents (shape ?t))" by (rule len)
    show "tensor_cells ?r ?t ! flat_index (extents (shape ?t)) cs
            = ?xs ! flat_index (extents ?s) (cs[?k := cs ! ?k + i * ?per])"
      if "in_bounds (extents (shape ?t)) cs" for cs
      using that by (rule content)
  qed
  moreover have "status ?r = OK" using st by (simp add: gs)
  moreover have "copies ?r = copies c @
            (if 0 < ?Pn * ?per * ?Sn
             then map (\<lambda>q. SplitCall
                    (split_output num_split c q, (of_nat ?Pn, of_nat ?per, of_nat ?Sn))
                    (input1 c, (of_nat ?Pn, of_nat ?Dn, of_nat ?Sn))
                    (0, of_nat (q * ?per), 0) (of_nat ?Pn, of_nat ?per, of_nat ?Sn))
                    [0 ..< ?nn]
             else [])"
    by (simp add: gs)
  ultimately show ?thesis by blast
qed

theorem general_path_outputs_witness:
  "wf_context (context_of [2, 6] 1 [0 ..< 12 :: nat])
   \<and> valid_split 2 (context_of [2, 6] 1 [0 ..< 12 :: nat])
   \<and> general_path (\<lambda>s. False) 2 (context_of [2, 6] 1 [0 ..< 12 :: nat])
   \<and> fits_split [2, 6] 1 2
   \<and> (\<exists>t. outputs (Compute_CPU (\<lambda>s. False) 2 (context_of [2, 6] 1 [0 ..< 12 :: nat])) 1 = Some t
          \<and> shape t = [2, 3]
          \<and> tensor_cells (Compute_CPU (\<lambda>s. False) 2 (context_of [2, 6] 1 [0 ..< 12 :: nat])) t
                ! flat_index [2, 3] [1, 2] = Some 11)"
proof -
  let ?c = "context_of [2, 6] 1 [0 ..< 12 :: nat]"
  have wf: "wf_context ?c"
    by (simp add: wf_context_def context_of_def valid_shape_def num_elements_def
        dims_product_def)
  have v: "valid_split 2 ?c"
    by (simp add: valid_split_def context_of_def dims_def dim_size_def)
  have g: "general_path (\<lambda>s. False) 2 ?c"
    by (simp add: general_path_def)
  have ok: "\<forall>q. alloc_ok ?c q" by (simp add: context_of_def)
  have ax: "split_axis ?c = 1" by (simp add: split_axis_def context_of_def)
  have sh: "shape (input1 ?c) = [2, 6]" by (simp add: context_of_def)
  have fits: "fits_split (shape (input1 ?c)) (split_axis ?c) (sint (2 :: int32))"
    unfolding ax sh
    by (simp add: fits_split_def dim_size_def prefix_size_def suffix_size_def
        dims_product_def int32_value_def)
  have i: "1 < nat (sint (2 :: int32))" by simp
  have per: "per_split 2 ?c = 3"
    by (simp add: per_split_def axis_count_def ax sh dim_size_def)
  have ex: "extents [2, 3] = [2, 3]" "extents [2, 6] = [2, 6]" by (simp_all add: extents_def)
  have ib: "in_bounds [2, 3] [1, 2]" by (simp add: in_bounds_def)
  have cells: "tensor_cells ?c (input1 ?c) = map Some [0 ..< 12]"
    by (simp add: tensor_cells_def context_of_def num_elements_def dims_product_def)
  have fi: "flat_index [2, 6] [1, 5] = 11" by simp
  from general_path_outputs [OF wf v g ok fits i]
  obtain t where t: "outputs (Compute_CPU (\<lambda>s. False) 2 ?c) 1 = Some t"
      "shape t = (shape (input1 ?c))[split_axis ?c := of_nat (per_split 2 ?c)]"
      "\<forall>cs. in_bounds (extents (shape t)) cs \<longrightarrow>
         tensor_cells (Compute_CPU (\<lambda>s. False) 2 ?c) t ! flat_index (extents (shape t)) cs
         = tensor_cells ?c (input1 ?c)
             ! flat_index (extents (shape (input1 ?c)))
                 (cs[split_axis ?c := cs ! split_axis ?c + 1 * per_split 2 ?c])"
    by blast
  have st: "shape t = [2, 3]" using t(2) by (simp add: ax sh per)
  have "tensor_cells (Compute_CPU (\<lambda>s. False) 2 ?c) t ! flat_index [2, 3] [1, 2] = Some 11"
    using t(3) [rule_format, of "[1, 2]"] ib
    unfolding st ex sh ax per cells by (simp add: fi)
  with t(1) st wf v g fits [unfolded ax sh] show ?thesis by simp
qed

text \<open>
  C1 as stated fails: the shape \<open>(0, 2\<^sup>3\<^sup>2)\<close> split in two along axis 1 is a valid
  invocation on the general path, and the outputs have the shape \<open>(0, 0)\<close>, not
  \<open>(0, 2\<^sup>3\<^sup>1)\<close>: the split-axis size is cut to 32 bits.
\<close>

theorem general_path_outputs_counterexample:
  "wf_context (context_of [0, 4294967296] 1 ([] :: nat list))
   \<and> valid_split 2 (context_of [0, 4294967296] 1 ([] :: nat list))
   \<and> general_path (\<lambda>s. False) 2 (context_of [0, 4294967296] 1 ([] :: nat list))
   \<and> status (Compute_CPU (\<lambda>s. False) 2 (context_of [0, 4294967296] 1 ([] :: nat list))) = OK
   \<and> map_option shape
         (outputs (Compute_CPU (\<lambda>s. False) 2 (context_of [0, 4294967296] 1 ([] :: nat list))) 0)
       = Some [0, 0]
   \<and> axis_count (context_of [0, 4294967296] 1 ([] :: nat list)) div nat (sint (2 :: int32))
       = 2147483648
   \<and> map_option (\<lambda>t. extents (shape t))
         (outputs (Compute_CPU (\<lambda>s. False) 2 (context_of [0, 4294967296] 1 ([] :: nat list))) 0)
       \<noteq> Some ((extents (shape (input1 (context_of [0, 4294967296] 1 ([] :: nat list)))))
                  [split_axis (context_of [0, 4294967296] 1 ([] :: nat list)) := 2147483648])"
proof -
  let ?c = "context_of [0, 4294967296] 1 ([] :: nat list)"
  have sh: "shape (input1 ?c) = [0, 4294967296]" and i0: "input0 ?c = 1"
    and st: "status ?c = OK" and b: "buf (input1 ?c) < length (heap ?c)"
    and ok: "\<forall>q. alloc_ok ?c q"
    by (simp_all add: context_of_def)
  have wf: "wf_context ?c"
    by (simp add: wf_context_def context_of_def valid_shape_def num_elements_def
        dims_product_def)
  have v: "valid_split 2 ?c"
    by (simp add: valid_split_def context_of_def dims_def dim_size_def)
  have g: "general_path (\<lambda>s. False) 2 ?c"
    by (simp add: general_path_def)
  have sd: "SetDims (shape (input1 ?c)) (input0 ?c) = (0, 0, 1)"
    unfolding sh i0 by code_simp
  have per: "cdiv (0 :: int32) 2 = 0" by (simp add: cdiv_def)
  note r = Compute_CPU_general [OF v g st ok b sd, unfolded per]
  have s1: "status (Compute_CPU (\<lambda>s. False) 2 ?c) = OK"
    unfolding r by (simp add: st)
  have o: "map_option shape (outputs (Compute_CPU (\<lambda>s. False) 2 ?c) 0) = Some [0, 0]"
    unfolding r by (simp add: fresh_output_def set_dim_def sh i0)
  have ax: "axis_count ?c div nat (sint (2 :: int32)) = 2147483648"
    by (simp add: axis_count_def split_axis_def sh i0 dim_size_def)
  have ne: "map_option (\<lambda>t. extents (shape t)) (outputs (Compute_CPU (\<lambda>s. False) 2 ?c) 0)
       \<noteq> Some ((extents (shape (input1 ?c)))[split_axis ?c := 2147483648])"
    unfolding r by (simp add: fresh_output_def set_dim_def sh i0 extents_def split_axis_def)
  show ?thesis using wf v g s1 o ax ne by blast
qed

text \<open>
  The sizes that fit, on examples. The whole input may have \<open>2\<^sup>3\<^sup>1\<close> elements or
  more, as for \<open>(2, 2\<^sup>3\<^sup>0)\<close> split in two along axis 1; and one output may, when the
  32-bit product is positive all the same, as for \<open>(1282, 6700417)\<close> split in two
  along axis 0, where one output has \<open>2\<^sup>3\<^sup>2 + 1\<close> elements. The sizes do not fit when
  the split-axis size is \<open>2\<^sup>3\<^sup>1\<close> or more, or when the 32-bit product of outputs
  that are not empty is negative or zero.
\<close>

lemma fits_split_examples:
  "fits_split [2, 1073741824] 1 2"
  "fits_split [1282, 6700417] 0 2"
  "\<not> fits_split [0, 4294967296] 1 2"
  "\<not> fits_split [65536, 32768, 2] 1 2"
  "\<not> fits_split [65536, 2, 65536] 1 2"
  by (simp_all add: fits_split_def dim_size_def prefix_size_def suffix_size_def
      dims_product_def int32_value_def)

text \<open>
  Why the 32-bit product is part of the condition: for the shape
  \<open>(65536, 32768, 2)\<close> split in two along axis 1 every size is below \<open>2\<^sup>3\<^sup>1\<close>, but
  the product \<open>65536 \<sqdot> 16384 \<sqdot> 2\<close> wraps to \<open>- 2\<^sup>3\<^sup>1\<close>; the CPU executor tests
  \<^verbatim>\<open>> 0\<close>, copies nothing, and the first cell of output 0 stays unwritten where
  the input holds an element.
\<close>

lemma wrapped_product_skips_copy:
  "valid_split 2 (context_of [65536, 32768, 2] 1 (replicate 4294967296 (0 :: nat)))
   \<and> general_path (\<lambda>s. False) 2
         (context_of [65536, 32768, 2] 1 (replicate 4294967296 (0 :: nat)))
   \<and> map_option
         (\<lambda>t. tensor_cells
                (Compute_CPU (\<lambda>s. False) 2
                   (context_of [65536, 32768, 2] 1 (replicate 4294967296 (0 :: nat)))) t ! 0)
         (outputs (Compute_CPU (\<lambda>s. False) 2
                     (context_of [65536, 32768, 2] 1 (replicate 4294967296 (0 :: nat)))) 0)
       = Some None
   \<and> tensor_cells (context_of [65536, 32768, 2] 1 (replicate 4294967296 (0 :: nat)))
         (input1 (context_of [65536, 32768, 2] 1 (replicate 4294967296 (0 :: nat)))) ! 0
       = Some 0"
proof -
  let ?c = "context_of [65536, 32768, 2] 1 (replicate 4294967296 (0 :: nat))"
  let ?cpu = "Compute_CPU (\<lambda>s. False) 2 ?c"
  have sh: "shape (input1 ?c) = [65536, 32768, 2]" and i0: "input0 ?c = 1"
    and st: "status ?c = OK" and b: "buf (input1 ?c) < length (heap ?c)"
    and ok: "\<forall>q. alloc_ok ?c q"
    and hp: "heap ?c = [replicate 4294967296 (Some 0)]"
    and bi: "buf (input1 ?c) = 0" "base (input1 ?c) = 0"
    by (simp_all add: context_of_def)
  have v: "valid_split 2 ?c"
    by (simp add: valid_split_def sh i0 dims_def dim_size_def)
  have g: "general_path (\<lambda>s. False) 2 ?c"
    by (simp add: general_path_def)
  have sd: "SetDims (shape (input1 ?c)) (input0 ?c) = (65536, 32768, 2)"
    unfolding sh i0 by code_simp
  have per: "cdiv (32768 :: int32) 2 = 16384" by (simp add: cdiv_def)
  have prod: "(65536 :: int32) * 16384 * 2 = 2147483648" by simp
  have neg: "\<not> 0 < sint (2147483648 :: int32)" by simp
  have osh: "set_dim [65536, 32768, 2] (nat (sint (1 :: int32))) (scast (16384 :: int32))
               = [65536, 16384, 2]"
    by (simp add: set_dim_def)
  have m: "num_elements [65536, 16384, 2] = 2147483648"
    by (simp add: num_elements_def dims_product_def)
  have mi: "num_elements [65536, 32768, 2] = 4294967296"
    by (simp add: num_elements_def dims_product_def)
  note cpu = Compute_CPU_general [OF v g st ok b sd, unfolded per prod sh i0 osh m hp]
  have c1: "map_option (\<lambda>t. tensor_cells ?cpu t ! 0) (outputs ?cpu 0) = Some None"
    unfolding cpu
    by (simp add: neg fresh_output_def tensor_cells_def m hp)
  have c2: "tensor_cells ?c (input1 ?c) ! 0 = Some 0"
    by (simp add: tensor_cells_def sh mi hp bi)
  show ?thesis using v g c1 c2 by blast
qed

subsection \<open>The round trip\<close>






lemma extents_counts:
  assumes wf: "wf_context c" and v: "valid_split num_split c"
  shows "split_axis c < length (extents (shape (input1 c)))"
    and "extents (shape (input1 c)) ! split_axis c = axis_count c"
    and "prod_list (take (split_axis c) (extents (shape (input1 c)))) = prefix_count c"
    and "prod_list (drop (Suc (split_axis c)) (extents (shape (input1 c)))) = suffix_count c"
proof -
  have vs: "valid_shape (shape (input1 c))" using wf by (simp add: wf_context_def)
  note cf = counts_facts [OF wf v]
  show "split_axis c < length (extents (shape (input1 c)))"
    using cf(1) by (simp add: extents_def)
  show "extents (shape (input1 c)) ! split_axis c = axis_count c"
    using cf(1) by (simp add: extents_def axis_count_def dim_size_def)
  show "prod_list (take (split_axis c) (extents (shape (input1 c)))) = prefix_count c"
    by (simp add: extents_take prod_extents [OF valid_shape_take [OF vs]] prefix_count_def
        prefix_size_def)
  show "prod_list (drop (Suc (split_axis c)) (extents (shape (input1 c)))) = suffix_count c"
    by (simp add: extents_drop prod_extents [OF valid_shape_drop [OF vs]] suffix_count_def
        suffix_size_def)
qed

lemma general_path_value:
  assumes wf: "wf_context c" and v: "valid_split num_split c"
    and g: "general_path a num_split c" and ok: "\<forall>q. alloc_ok c q"
    and fits: "fits_split (shape (input1 c)) (split_axis c) (sint num_split)"
    and q: "q < nat (sint num_split)"
  shows "outputs (Compute_CPU a num_split c) q = Some (split_output num_split c q)"
    and "tensor_value (Compute_CPU a num_split c) (split_output num_split c q)
       = ((extents (shape (input1 c)))[split_axis c := per_split num_split c],
          split_block (tensor_cells c (input1 c)) (prefix_count c) (axis_count c)
            (suffix_count c) (per_split num_split c) q)"
proof -
  let ?r = "Compute_CPU a num_split c"
  let ?s = "shape (input1 c)" and ?k = "split_axis c"
  let ?Pn = "prefix_count c" and ?Dn = "axis_count c" and ?Sn = "suffix_count c"
  let ?per = "per_split num_split c"
  let ?t = "split_output num_split c q"
  let ?od = "(extents ?s)[?k := ?per]"
  note gs = general_path_state [OF wf v g ok fits]
  note cf = counts_facts [OF wf v]
  note ec = extents_counts [OF wf v]
  have vs: "valid_shape ?s" using wf by (simp add: wf_context_def)
  have perD: "?per \<le> ?Dn" unfolding per_split_def by (rule div_le_dividend)
  have "int ?Dn < 2 ^ 63" unfolding cf(3) by (rule sint64_bounds)
  then have "?per < 2 ^ 63" using perD by simp
  then have sper: "sint (of_nat ?per :: int64) = int ?per" by (rule sint_of_nat64)
  have ext: "extents (shape ?t) = ?od"
    by (simp add: split_output_def extents_def map_update sper)
  have pod: "prod_list ?od = ?Pn * ?per * ?Sn"
  proof -
    have "?od = take ?k (extents ?s) @ ?per # drop (Suc ?k) (extents ?s)"
      using ec(1) by (rule upd_conv_take_nth_drop)
    then show ?thesis by (simp add: ec)
  qed
  have vt: "valid_shape (shape ?t)"
    using vs by (auto simp add: split_output_def valid_shape_def list_all_iff sper
        dest!: set_update_subset_insert [THEN subsetD])
  have ne: "num_elements (shape ?t) = ?Pn * ?per * ?Sn"
    using prod_extents [OF vt] by (simp add: num_elements_def ext pod)
  show "outputs ?r q = Some ?t" using q by (simp add: gs)
  have hp: "heap ?r ! buf ?t
              = split_block (tensor_cells c (input1 c)) ?Pn ?Dn ?Sn ?per q"
    using q by (simp add: gs split_output_def nth_append)
  have "tensor_cells ?r ?t = split_block (tensor_cells c (input1 c)) ?Pn ?Dn ?Sn ?per q"
    unfolding tensor_cells_def hp ne by (simp add: split_output_def split_block_def)
  then show "tensor_value ?r ?t
       = (?od, split_block (tensor_cells c (input1 c)) ?Pn ?Dn ?Sn ?per q)"
    by (simp add: tensor_value_def ext)
qed


lemma tensor_value_heap: "heap r = heap c \<Longrightarrow> tensor_value r t = tensor_value c t"
  by (simp add: tensor_value_def tensor_cells_def)


lemma dim0_state:
  assumes wf: "wf_context c" and v: "valid_split num_split c"
    and n1: "num_split \<noteq> 1" and d0: "input0 c = 0" and al: "a (shape (input1 c))"
  shows "Compute_CPU a num_split c
       = c\<lparr>outputs := (\<lambda>j. if j < nat (sint num_split)
            then Some (Slice (input1 c) (of_nat j * slice_delta (shape (input1 c)) num_split)
                         ((of_nat j + 1) * slice_delta (shape (input1 c)) num_split))
            else outputs c j)\<rparr>"
    and "i < nat (sint num_split) \<Longrightarrow>
         tensor_value c
           (Slice (input1 c) (of_nat i * slice_delta (shape (input1 c)) num_split)
              ((of_nat i + 1) * slice_delta (shape (input1 c)) num_split))
         = ((extents (shape (input1 c)))[0 := per_split num_split c],
            take (per_split num_split c * suffix_count c)
              (drop (i * (per_split num_split c * suffix_count c))
                 (tensor_cells c (input1 c))))"
proof -
  let ?s = "shape (input1 c)"
  let ?n = "sint num_split"
  let ?D = "sint (dim_size ?s 0)"
  let ?dl = "slice_delta ?s num_split"
  let ?per = "per_split num_split c"
  let ?f = "\<lambda>i. Slice (input1 c) (of_nat i * ?dl) ((of_nat i + 1) * ?dl)"
  have vs: "valid_shape ?s" using wf by (simp add: wf_context_def)
  note vi = valid_split_ints [OF v vs]
  note cf = counts_facts [OF wf v]
  have k0: "split_axis c = 0" by (simp add: split_axis_def d0)
  have ne: "?s \<noteq> []" using vi(1) by auto
  have D: "0 \<le> ?D" and n: "0 < ?n" using vi d0 by simp_all
  have hd: "sint (hd ?s) = ?D" using ne by (simp add: dim_size_def hd_conv_nth)
  have dl: "sint ?dl = int ?per"
    using cdiv_nonneg [of "dim_size ?s 0" "scast num_split"] D n cf(5)
    by (simp add: slice_delta_def sint_scast_up k0)
  have e: "ComputeEasyCases a num_split c
             = (c\<lparr>outputs := (\<lambda>j. if j < nat ?n then Some (?f j) else outputs c j)\<rparr>, True)"
    by (subst ComputeEasyCases_valid [OF v]) (simp add: n1 d0 al fold_set_output)
  show "Compute_CPU a num_split c
       = c\<lparr>outputs := (\<lambda>j. if j < nat ?n then Some (?f j) else outputs c j)\<rparr>"
    unfolding Compute_CPU_def e by simp
  show "tensor_value c (?f i)
         = ((extents ?s)[0 := ?per],
            take (?per * suffix_count c) (drop (i * (?per * suffix_count c))
                 (tensor_cells c (input1 c))))" if i: "i < nat ?n"
  proof -
    have le: "Suc i * ?per \<le> axis_count c"
    proof -
      have "Suc i * ?per \<le> nat ?n * ?per" using i by (intro mult_le_mono1) simp
      then show ?thesis using cf(7) by simp
    qed
    have Dn: "int (axis_count c) = ?D" using cf(3) by (simp add: k0)
    have ile: "int i * sint ?dl \<le> ?D"
    proof -
      have "i * ?per \<le> axis_count c" using le by simp
      then have "int (i * ?per) \<le> int (axis_count c)" by (simp only: of_nat_le_iff)
      then show ?thesis by (simp add: dl Dn)
    qed
    have si: "sint (of_nat i * ?dl) = int (i * ?per)"
      using sint_int64_mult [of i ?dl "dim_size ?s 0"] ile by (simp add: dl)
    have lim: "(of_nat i + 1) * ?dl - of_nat i * ?dl = ?dl"
      by (simp add: algebra_simps)
    have row: "num_elements (tl ?s) = suffix_count c"
      by (simp add: suffix_count_def suffix_size_def k0 num_elements_def drop_Suc)
    have le': "sint (of_nat i * ?dl) + sint ?dl \<le> sint (hd ?s)"
    proof -
      have "int (Suc i * ?per) \<le> int (axis_count c)" using le by (simp only: of_nat_le_iff)
      then show ?thesis by (simp add: si dl hd Dn algebra_simps)
    qed
    have "tensor_cells c (?f i)
            = take (?per * suffix_count c) (drop (i * ?per * suffix_count c)
                 (tensor_cells c (input1 c)))"
      using slice_rows [OF vs ne _ _ le', of "base (input1 c)" "heap c ! buf (input1 c)"]
      by (simp add: tensor_cells_def Slice_def lim si dl row nat_mult_distrib)
    moreover have "extents (shape (?f i)) = (extents ?s)[0 := ?per]"
    proof -
      have "shape (?f i) = ?dl # tl ?s" by (simp add: Slice_def lim)
      then have "extents (shape (?f i)) = ?per # tl (extents ?s)"
        by (simp add: extents_def dl map_tl)
      moreover have "(extents ?s)[0 := ?per] = ?per # tl (extents ?s)"
        using ne by (cases "extents ?s") (simp_all add: extents_def)
      ultimately show ?thesis by simp
    qed
    ultimately show ?thesis by (simp add: tensor_value_def mult.assoc)
  qed
qed








subsection \<open>The GPU executor and the stream\<close>

lemma fold_update_upt:
  "m \<le> length ps \<Longrightarrow>
   fold (\<lambda>q ps. ps[q := f q]) [0 ..< m] ps = map f [0 ..< m] @ drop m ps"
proof (induction m)
  case 0
  then show ?case by simp
next
  case (Suc m)
  then have m: "m < length ps" by simp
  have "(map f [0 ..< m] @ drop m ps)[m := f m] = map f [0 ..< m] @ (drop m ps)[0 := f m]"
    by (simp add: list_update_append)
  also have "(drop m ps)[0 := f m] = f m # drop (Suc m) ps"
    using m by (simp add: Cons_nth_drop_Suc [symmetric])
  finally show ?case using Suc by simp
qed

lemma gpu_loop_step:
  assumes ok: "alloc_ok c (allocs c)"
  shows "gpu_loop oshape host (j # rest) c
     = gpu_loop oshape host rest
         (c\<lparr>outputs := (outputs c)(j \<mapsto> fresh_output oshape c 0),
            heap := heap c @ [replicate (num_elements oshape) None],
            allocs := Suc (allocs c),
            temps := (temps c)[host := (temps c ! host)
                       \<lparr>ptrs := (ptrs (temps c ! host))[j := Some (length (heap c))]\<rparr>]\<rparr>)"
proof -
  let ?t = "fresh_output oshape c 0"
  let ?c1 = "c\<lparr>outputs := (outputs c)(j \<mapsto> ?t),
                heap := heap c @ [replicate (num_elements oshape) None],
                allocs := Suc (allocs c)\<rparr>"
  have a: "allocate_output j oshape c = Inr (?t, ?c1)"
    using ok by (simp add: allocate_output_def Let_def fresh_output_def)
  have s: "set_ptr host j (buf ?t) ?c1
         = c\<lparr>outputs := (outputs c)(j \<mapsto> ?t),
             heap := heap c @ [replicate (num_elements oshape) None],
             allocs := Suc (allocs c),
             temps := (temps c)[host := (temps c ! host)
                        \<lparr>ptrs := (ptrs (temps c ! host))[j := Some (length (heap c))]\<rparr>]\<rparr>"
    by (auto intro!: OpKernelContext.equality simp add: set_ptr_def fresh_output_def)
  show ?thesis
    unfolding gpu_loop.simps a sum.case prod.case s ..
qed

lemma fold_shift:
  "fold (\<lambda>q ps. ps[j + q := f q]) [0 ..< Suc m] ps
     = fold (\<lambda>q ps. ps[Suc j + q := f (Suc q)]) [0 ..< m] (ps[j := f 0])"
proof -
  have "fold (\<lambda>q ps. ps[j + q := f q]) (map Suc [0 ..< m]) (ps[j := f 0])
          = fold ((\<lambda>q ps. ps[j + q := f q]) \<circ> Suc) [0 ..< m] (ps[j := f 0])"
    by (simp add: fold_map)
  then show ?thesis
    unfolding upt_0_Suc_map by (simp add: o_def)
qed

lemma gpu_loop_closed:
  assumes ok: "\<forall>q. alloc_ok c q" and h: "host < length (temps c)"
  shows "gpu_loop oshape host [j ..< j + m] c
     = (c\<lparr>outputs := (\<lambda>i. if j \<le> i \<and> i < j + m
                            then Some (fresh_output oshape c (i - j)) else outputs c i),
           heap := heap c @ replicate m (replicate (num_elements oshape) None),
           allocs := allocs c + m,
           temps := (temps c)[host := (temps c ! host)
                      \<lparr>ptrs := fold (\<lambda>q ps. ps[j + q := Some (length (heap c) + q)])
                                 [0 ..< m] (ptrs (temps c ! host))\<rparr>]\<rparr>, True)"
  using ok h
proof (induction m arbitrary: j c)
  case 0
  have "(\<lambda>i. if j \<le> i \<and> i < j + 0 then Some (fresh_output oshape c (i - j))
             else outputs c i) = outputs c"
    by (rule ext) auto
  then show ?case by simp
next
  case (Suc m)
  let ?c2 = "c\<lparr>outputs := (outputs c)(j \<mapsto> fresh_output oshape c 0),
            heap := heap c @ [replicate (num_elements oshape) None],
            allocs := Suc (allocs c),
            temps := (temps c)[host := (temps c ! host)
                       \<lparr>ptrs := (ptrs (temps c ! host))[j := Some (length (heap c))]\<rparr>]\<rparr>"
  have l: "[j ..< j + Suc m] = j # [Suc j ..< Suc j + m]"
    by (simp add: upt_conv_Cons del: upt_Suc)
  have ok2: "\<forall>q. alloc_ok ?c2 q" using Suc.prems(1) by simp
  have h2: "host < length (temps ?c2)" using Suc.prems(2) by simp
  have fo: "fresh_output oshape ?c2 q = fresh_output oshape c (Suc q)" for q
    by (simp add: fresh_output_def)
  have st: "gpu_loop oshape host [j ..< j + Suc m] c
          = gpu_loop oshape host [Suc j ..< Suc j + m] ?c2"
    unfolding l using gpu_loop_step [of c oshape host j] Suc.prems by simp
  have sd: "Suc j \<le> x \<Longrightarrow> Suc (x - Suc j) = x - j" for x
    by arith
  have fs: "fold (\<lambda>q ps. ps[j + q := Some (length (heap c) + q)]) [0 ..< Suc m]
              (ptrs (temps c ! host))
          = fold (\<lambda>q ps. ps[Suc j + q := Some (length (heap c) + Suc q)]) [0 ..< m]
              ((ptrs (temps c ! host))[j := Some (length (heap c))])"
    using fold_shift [of j "\<lambda>q. Some (length (heap c) + q)" m "ptrs (temps c ! host)"]
    by simp
  show ?case
    unfolding st Suc.IH [OF ok2 h2] fo fs
    using Suc.prems(2)
    by (auto intro!: OpKernelContext.equality simp add: fun_eq_iff sd replicate_app_Cons_same)
qed

lemma Compute_GPU_general:
  assumes v: "valid_split num_split c" and g: "general_path a num_split c"
    and st: "status c = OK" and ok: "\<forall>q. alloc_ok c q"
    and sd: "SetDims (shape (input1 c)) (input0 c) = (P, D, S)"
  shows "Compute_GPU a num_split c
     = c\<lparr>outputs := (\<lambda>i. if i < nat (sint num_split)
             then Some (fresh_output
                          (set_dim (shape (input1 c)) (nat (sint (input0 c)))
                             (scast (cdiv D num_split))) c i)
             else outputs c i),
          status := (if P * cdiv D num_split * S \<noteq> 0 \<and> \<not> stream_ok c then Internal else OK),
          heap := heap c @ replicate (nat (sint num_split))
                    (replicate (num_elements
                       (set_dim (shape (input1 c)) (nat (sint (input0 c)))
                          (scast (cdiv D num_split)))) None),
          allocs := allocs c + nat (sint num_split) + 2,
          temps := temps c @
            [\<lparr>ptrs = map (\<lambda>q. Some (length (heap c) + q)) [0 ..< nat (sint num_split)],
              refs = (if P * cdiv D num_split * S \<noteq> 0 then 1 else 0)\<rparr>,
             \<lparr>ptrs = replicate (nat (sint num_split)) None, refs = 0\<rparr>],
          stream := stream c @
            (if P * cdiv D num_split * S \<noteq> 0
             then [ThenMemcpy (Suc (length (temps c))) (length (temps c)) (nat (sint num_split)),
                   ThenExecuteUnref (length (temps c)),
                   SplitOpGPULaunch (input1 c) num_split P D S (Suc (length (temps c)))]
             else [])\<rparr>"
proof -
  let ?n = "nat (sint num_split)"
  let ?T = "length (temps c)"
  let ?oshape = "set_dim (shape (input1 c)) (nat (sint (input0 c))) (scast (cdiv D num_split))"
  let ?c1 = "c\<lparr>temps := temps c @ [\<lparr>ptrs = replicate ?n None, refs = 1\<rparr>],
               allocs := Suc (allocs c)\<rparr>"
  let ?c2 = "?c1\<lparr>temps := temps ?c1 @ [\<lparr>ptrs = replicate ?n None, refs = 1\<rparr>],
               allocs := Suc (allocs ?c1)\<rparr>"
  have a1: "allocate_temp ?n c = Inr (?T, ?c1)"
    using ok by (simp add: allocate_temp_def)
  have a2: "allocate_temp ?n ?c1 = Inr (Suc ?T, ?c2)"
    using ok by (simp add: allocate_temp_def)
  have ok2: "\<forall>q. alloc_ok ?c2 q" using ok by simp
  have h2: "?T < length (temps ?c2)" by simp
  have pt: "fold (\<lambda>q ps. ps[0 + q := Some (length (heap ?c2) + q)]) [0 ..< ?n]
              (ptrs (temps ?c2 ! ?T))
            = map (\<lambda>q. Some (length (heap c) + q)) [0 ..< ?n]"
    using fold_update_upt [of ?n "replicate ?n None" "\<lambda>q. Some (length (heap c) + q)"]
    by (simp add: nth_append)
  let ?c3 = "c\<lparr>outputs := (\<lambda>i. if i < ?n then Some (fresh_output ?oshape c i) else outputs c i),
               heap := heap c @ replicate ?n (replicate (num_elements ?oshape) None),
               allocs := allocs c + ?n + 2,
               temps := temps c @
                 [\<lparr>ptrs = map (\<lambda>q. Some (length (heap c) + q)) [0 ..< ?n], refs = 1\<rparr>,
                  \<lparr>ptrs = replicate ?n None, refs = 1\<rparr>]\<rparr>"
  have lp: "gpu_loop ?oshape ?T [0 ..< ?n] ?c2 = (?c3, True)"
  proof -
    have "gpu_loop ?oshape ?T [0 ..< 0 + ?n] ?c2 = (?c3, True)"
      unfolding gpu_loop_closed [OF ok2 h2] pt
      by (auto intro!: OpKernelContext.equality
          simp add: fun_eq_iff fresh_output_def nth_append list_update_append)
    then show ?thesis by simp
  qed
  show ?thesis
  proof (cases "P * cdiv D num_split * S = 0")
    case True
    show ?thesis
      unfolding Compute_GPU_def ComputeEasyCases_general [OF v g] prod.case Let_def sd a1 a2
        sum.case lp bool.case
      using st True
      by (auto intro!: OpKernelContext.equality
          simp add: Unref_def nth_append list_update_append)
  next
    case False
    show ?thesis
      unfolding Compute_GPU_def ComputeEasyCases_general [OF v g] prod.case Let_def sd a1 a2
        sum.case lp bool.case
      using st False
      by (auto intro!: OpKernelContext.equality
          simp add: gpu_launch_acts_def host_act_def Unref_def Ref_def CtxFailure_def
            nth_append list_update_append)
  qed
qed





lemma easy_paths_same:
  assumes v: "valid_split num_split c" and g: "\<not> general_path a num_split c"
  shows "Compute_GPU a num_split c = Compute_CPU a num_split c"
    and "stream (Compute_CPU a num_split c) = stream c"
proof -
  let ?f = "\<lambda>i. Slice (input1 c) (of_nat i * slice_delta (shape (input1 c)) num_split)
                ((of_nat i + 1) * slice_delta (shape (input1 c)) num_split)"
  have "ComputeEasyCases a num_split c = (set_output 0 (input1 c) c, True)
      \<or> ComputeEasyCases a num_split c
           = (fold (\<lambda>i. set_output i (?f i)) [0 ..< nat (sint num_split)] c, True)"
    using g by (subst (1 2) ComputeEasyCases_valid [OF v]) (auto simp add: general_path_def)
  then show "Compute_GPU a num_split c = Compute_CPU a num_split c"
    and "stream (Compute_CPU a num_split c) = stream c"
    by (auto simp add: Compute_GPU_def Compute_CPU_def fold_set_output set_output_def)
qed


lemma fits_collapsed_count:
  assumes wf: "wf_context c" and v: "valid_split num_split c"
    and fits: "fits_split (shape (input1 c)) (split_axis c) (sint num_split)"
  shows "(0 < sint (collapsed_count num_split c))
           = (0 < prefix_count c * per_split num_split c * suffix_count c)"
    and "(collapsed_count num_split c = 0)
           = (prefix_count c * per_split num_split c * suffix_count c = 0)"
proof -
  obtain P D S where sd: "SetDims (shape (input1 c)) (input0 c) = (P, D, S)"
    by (cases "SetDims (shape (input1 c)) (input0 c)") auto
  have vs: "valid_shape (shape (input1 c))" using wf by (simp add: wf_context_def)
  note vi = valid_split_ints [OF v vs]
  note cf = counts_facts [OF wf v]
  have sp: "0 \<le> sint (input0 c)" and kd: "sint (input0 c) < dims (shape (input1 c))"
    using v by (simp_all add: valid_split_def)
  note gs = general_sizes [OF vs sp kd vi(3) vi(4) fits [unfolded split_axis_def] sd,
      folded split_axis_def]
  have cnt: "prefix_size (shape (input1 c)) (split_axis c)
               * (sint (dim_size (shape (input1 c)) (split_axis c)) div sint num_split)
               * suffix_size (shape (input1 c)) (split_axis c)
             = int (prefix_count c * per_split num_split c * suffix_count c)"
    by (simp add: cf(2,4,5))
  show "(0 < sint (collapsed_count num_split c))
           = (0 < prefix_count c * per_split num_split c * suffix_count c)"
    unfolding collapsed_count_def sd prod.case gs(3) cnt by (rule of_nat_0_less_iff)
  show "(collapsed_count num_split c = 0)
           = (prefix_count c * per_split num_split c * suffix_count c = 0)"
    unfolding collapsed_count_def sd prod.case gs(5) cnt by (rule of_nat_eq_0_iff)
qed





lemma gpu_general_same:
  assumes v: "valid_split num_split c" and g: "general_path a num_split c"
    and st: "status c = OK" and ok: "\<forall>q. alloc_ok c q"
    and b: "buf (input1 c) < length (heap c)"
  shows "outputs (Compute_GPU a num_split c) = outputs (Compute_CPU a num_split c)"
    and "collapsed_count num_split c = 0 \<Longrightarrow>
           heap (Compute_GPU a num_split c) = heap (Compute_CPU a num_split c)
         \<and> stream (Compute_GPU a num_split c) = stream c
         \<and> status (Compute_GPU a num_split c) = OK"
proof -
  obtain P D S where sd: "SetDims (shape (input1 c)) (input0 c) = (P, D, S)"
    by (cases "SetDims (shape (input1 c)) (input0 c)") auto
  note cpu = Compute_CPU_general [OF v g st ok b sd]
  note gpu = Compute_GPU_general [OF v g st ok sd]
  show "outputs (Compute_GPU a num_split c) = outputs (Compute_CPU a num_split c)"
    unfolding cpu gpu by simp
  show "heap (Compute_GPU a num_split c) = heap (Compute_CPU a num_split c)
         \<and> stream (Compute_GPU a num_split c) = stream c
         \<and> status (Compute_GPU a num_split c) = OK"
    if "collapsed_count num_split c = 0"
  proof -
    from that have z: "P * cdiv D num_split * S = 0" by (simp add: collapsed_count_def sd)
    then have "\<not> 0 < sint (P * cdiv D num_split * S)" by simp
    then show ?thesis unfolding cpu gpu using z by (simp add: map_replicate_const)
  qed
qed

lemma zero_elements:
  assumes wf: "wf_context c" and z: "num_elements (shape (input1 c)) = 0"
  shows "tensor_cells c (input1 c) = []" and "dims_product (shape (input1 c)) = 0"
proof -
  show "tensor_cells c (input1 c) = []" using z by (simp add: tensor_cells_def)
  have "valid_shape (shape (input1 c))" using wf by (simp add: wf_context_def)
  from dims_product_nonneg [OF this] z show "dims_product (shape (input1 c)) = 0"
    by (simp add: num_elements_def)
qed

subsection \<open>Empty tensors\<close>

text \<open>
  C7, as amended. Take a valid invocation on an input with no element, whose
  allocations are granted and whose split-axis size fits in \<^verbatim>\<open>int32\<close> when it
  takes the general path. Both executors end without error; every output \<open>i\<close>
  below \<open>num_split\<close> is set, with the extents of the input but for the split axis,
  which is \<open>split_dim_size / num_split\<close>, and with no cell; the CPU executor does
  not invoke the strided-copy primitive and the GPU executor enqueues nothing on
  the stream.
\<close>

theorem empty_outputs:
  assumes wf: "wf_context c" and v: "valid_split num_split c" and ok: "\<forall>q. alloc_ok c q"
    and z: "num_elements (shape (input1 c)) = 0"
    and fd: "general_path a num_split c
               \<longrightarrow> sint (dim_size (shape (input1 c)) (split_axis c)) < 2 ^ 31"
    and i: "i < nat (sint num_split)"
  shows "status (Compute_CPU a num_split c) = OK
       \<and> status (Compute_GPU a num_split c) = OK
       \<and> copies (Compute_CPU a num_split c) = copies c
       \<and> stream (Compute_GPU a num_split c) = stream c
       \<and> outputs (Compute_GPU a num_split c) = outputs (Compute_CPU a num_split c)
       \<and> heap (Compute_GPU a num_split c) = heap (Compute_CPU a num_split c)
       \<and> (\<exists>t. outputs (Compute_CPU a num_split c) i = Some t
              \<and> extents (shape t)
                   = (extents (shape (input1 c)))
                       [split_axis c := axis_count c div nat (sint num_split)]
              \<and> tensor_cells (Compute_CPU a num_split c) t = [])"
proof -
  let ?r = "Compute_CPU a num_split c" and ?G = "Compute_GPU a num_split c"
  let ?ds = "extents (shape (input1 c))" and ?k = "split_axis c"
  let ?per = "per_split num_split c"
  have st: "status c = OK" and b: "buf (input1 c) < length (heap c)"
    using wf by (simp_all add: wf_context_def)
  note cf = counts_facts [OF wf v]
  note ec = extents_counts [OF wf v]
  note ze = zero_elements [OF wf z]
  have pz: "prefix_count c * axis_count c * suffix_count c = 0" using cf(8) z by simp
  have pz': "prefix_count c * ?per * suffix_count c = 0"
  proof (cases "axis_count c = 0")
    case True
    then show ?thesis by (simp add: per_split_def)
  next
    case False
    with pz show ?thesis by auto
  qed
  show ?thesis
  proof (cases "general_path a num_split c")
    case g: True
    have "int (prefix_count c * ?per * suffix_count c) = 0" using pz' by simp
    then have "prefix_size (shape (input1 c)) ?k
                 * (sint (dim_size (shape (input1 c)) ?k) div sint num_split)
                 * suffix_size (shape (input1 c)) ?k = 0"
      by (simp only: of_nat_mult cf(2,4,5))
    then have fits: "fits_split (shape (input1 c)) ?k (sint num_split)"
      using fd g by (simp add: fits_split_def)
    note gs = general_path_state [OF wf v g ok fits]
    note gv = general_path_value [OF wf v g ok fits i]
    have "collapsed_count num_split c = 0"
      using fits_collapsed_count(2) [OF wf v fits] pz' by simp
    note gg = gpu_general_same [OF v g st ok b] gpu_general_same(2) [OF v g st ok b this]
    have "tensor_cells ?r (split_output num_split c i) = []"
      using gv(2) pz' by (simp add: tensor_value_def split_block_def)
    moreover have "extents (shape (split_output num_split c i)) = ?ds[?k := ?per]"
      using gv(2) by (simp add: tensor_value_def)
    moreover have "copies ?r = copies c" by (simp add: gs [unfolded pz'])
    moreover have "status ?r = OK" using st by (simp add: gs)
    ultimately show ?thesis using gv(1) gg by (simp add: per_split_def)
  next
    case ng: False
    note ep = easy_paths_same [OF v ng]
    show ?thesis
    proof (cases "num_split = 1")
      case True
      have e: "ComputeEasyCases a num_split c = (set_output 0 (input1 c) c, True)"
        by (subst ComputeEasyCases_valid [OF v]) (simp add: True)
      have r: "?r = set_output 0 (input1 c) c"
        unfolding Compute_CPU_def e by simp
      have i0: "i = 0" using i True by simp
      have ids: "?ds[?k := axis_count c div nat (sint num_split)] = ?ds"
        using ec(1,2) True by (simp add: list_update_same_id)
      have "tensor_cells ?r (input1 c) = []"
        using ze(1) by (simp add: r tensor_cells_def set_output_def)
      then show ?thesis
        using st ep by (simp add: r i0 ids set_output_def)
    next
      case n1: False
      with ng have d0: "input0 c = 0" and al: "a (shape (input1 c))"
        by (simp_all add: general_path_def)
      note ds = dim0_state [where a = a, OF wf v n1 d0 al]
      have k0: "?k = 0" by (simp add: split_axis_def d0)
      let ?t = "Slice (input1 c) (of_nat i * slice_delta (shape (input1 c)) num_split)
                  ((of_nat i + 1) * slice_delta (shape (input1 c)) num_split)"
      have hp: "heap ?r = heap c" by (simp add: ds(1))
      have tv: "tensor_value ?r ?t = (?ds[0 := ?per], [])"
        unfolding tensor_value_heap [OF hp] ds(2) [OF i] ze(1) by simp
      have "outputs ?r i = Some ?t" using i by (simp add: ds(1))
      moreover have "extents (shape ?t) = ?ds[?k := axis_count c div nat (sint num_split)]"
        using tv by (simp add: tensor_value_def k0 per_split_def)
      moreover have "tensor_cells ?r ?t = []" using tv by (simp add: tensor_value_def)
      moreover have "status ?r = OK" and "copies ?r = copies c"
        using st by (simp_all add: ds(1))
      ultimately show ?thesis using ep by simp
    qed
  qed
qed

theorem empty_outputs_witness:
  "wf_context (context_of [0, 4] 0 ([] :: nat list))
   \<and> valid_split 2 (context_of [0, 4] 0 ([] :: nat list))
   \<and> num_elements (shape (input1 (context_of [0, 4] 0 ([] :: nat list)))) = 0
   \<and> status (Compute_CPU (\<lambda>s. False) 2 (context_of [0, 4] 0 ([] :: nat list))) = OK
   \<and> status (Compute_GPU (\<lambda>s. False) 2 (context_of [0, 4] 0 ([] :: nat list))) = OK
   \<and> copies (Compute_CPU (\<lambda>s. False) 2 (context_of [0, 4] 0 ([] :: nat list))) = []
   \<and> stream (Compute_GPU (\<lambda>s. False) 2 (context_of [0, 4] 0 ([] :: nat list))) = []
   \<and> (\<exists>t. outputs (Compute_CPU (\<lambda>s. False) 2 (context_of [0, 4] 0 ([] :: nat list))) 1 = Some t
          \<and> extents (shape t) = [0, 4]
          \<and> tensor_cells (Compute_CPU (\<lambda>s. False) 2 (context_of [0, 4] 0 ([] :: nat list))) t
               = [])"
proof -
  let ?c = "context_of [0, 4] 0 ([] :: nat list)"
  have sh: "shape (input1 ?c) = [0, 4]" and i0: "input0 ?c = 0"
    and cp: "copies ?c = []" and sm: "stream ?c = []"
    by (simp_all add: context_of_def)
  have wf: "wf_context ?c"
    by (simp add: wf_context_def context_of_def valid_shape_def num_elements_def
        dims_product_def)
  have v: "valid_split 2 ?c"
    by (simp add: valid_split_def context_of_def dims_def dim_size_def)
  have ok: "\<forall>q. alloc_ok ?c q" by (simp add: context_of_def)
  have z: "num_elements (shape (input1 ?c)) = 0"
    by (simp add: sh num_elements_def dims_product_def)
  have ax: "split_axis ?c = 0" by (simp add: split_axis_def i0)
  have fd: "general_path (\<lambda>s. False) 2 ?c
              \<longrightarrow> sint (dim_size (shape (input1 ?c)) (split_axis ?c)) < 2 ^ 31"
    by (simp add: sh ax dim_size_def)
  have i: "1 < nat (sint (2 :: int32))" by simp
  have ac: "axis_count ?c div nat (sint (2 :: int32)) = 0"
    by (simp add: axis_count_def ax sh dim_size_def)
  have ex: "(extents (shape (input1 ?c)))[split_axis ?c := 0] = [0, 4]"
    by (simp add: sh ax extents_def)
  show ?thesis
    using wf v z empty_outputs [OF wf v ok z fd i]
    unfolding ac ex cp sm by simp
qed

text \<open>
  C7 as stated fails: the shape \<open>(0, 2\<^sup>3\<^sup>2)\<close> has no element, and split in two
  along axis 1 both executors give outputs of extents \<open>(0, 0)\<close>, where the reduced
  shape is \<open>(0, 2\<^sup>3\<^sup>1)\<close>.
\<close>

theorem empty_outputs_counterexample:
  "wf_context (context_of [0, 4294967296] 1 ([] :: nat list))
   \<and> valid_split 2 (context_of [0, 4294967296] 1 ([] :: nat list))
   \<and> num_elements (shape (input1 (context_of [0, 4294967296] 1 ([] :: nat list)))) = 0
   \<and> map_option (\<lambda>t. extents (shape t))
         (outputs (Compute_CPU (\<lambda>s. False) 2 (context_of [0, 4294967296] 1 ([] :: nat list))) 0)
       = Some [0, 0]
   \<and> map_option (\<lambda>t. extents (shape t))
         (outputs (Compute_GPU (\<lambda>s. False) 2 (context_of [0, 4294967296] 1 ([] :: nat list))) 0)
       = Some [0, 0]
   \<and> (extents (shape (input1 (context_of [0, 4294967296] 1 ([] :: nat list)))))
         [split_axis (context_of [0, 4294967296] 1 ([] :: nat list))
            := axis_count (context_of [0, 4294967296] 1 ([] :: nat list))
                 div nat (sint (2 :: int32))]
       = [0, 2147483648]"
proof -
  let ?c = "context_of [0, 4294967296] 1 ([] :: nat list)"
  have sh: "shape (input1 ?c) = [0, 4294967296]" and i0: "input0 ?c = 1"
    and st: "status ?c = OK" and b: "buf (input1 ?c) < length (heap ?c)"
    and ok: "\<forall>q. alloc_ok ?c q"
    by (simp_all add: context_of_def)
  have wf: "wf_context ?c"
    by (simp add: wf_context_def context_of_def valid_shape_def num_elements_def
        dims_product_def)
  have v: "valid_split 2 ?c"
    by (simp add: valid_split_def context_of_def dims_def dim_size_def)
  have g: "general_path (\<lambda>s. False) 2 ?c"
    by (simp add: general_path_def)
  have z: "num_elements (shape (input1 ?c)) = 0"
    by (simp add: sh num_elements_def dims_product_def)
  have sd: "SetDims (shape (input1 ?c)) (input0 ?c) = (0, 0, 1)"
    unfolding sh i0 by code_simp
  have per: "cdiv (0 :: int32) 2 = 0" by (simp add: cdiv_def)
  note cpu = Compute_CPU_general [OF v g st ok b sd, unfolded per]
  note gpu = Compute_GPU_general [OF v g st ok sd, unfolded per]
  have o1: "map_option (\<lambda>t. extents (shape t)) (outputs (Compute_CPU (\<lambda>s. False) 2 ?c) 0)
              = Some [0, 0]"
    unfolding cpu by (simp add: fresh_output_def set_dim_def sh i0 extents_def)
  have o2: "map_option (\<lambda>t. extents (shape t)) (outputs (Compute_GPU (\<lambda>s. False) 2 ?c) 0)
              = Some [0, 0]"
    unfolding gpu by (simp add: fresh_output_def set_dim_def sh i0 extents_def)
  have ex: "(extents (shape (input1 ?c)))[split_axis ?c := axis_count ?c div nat (sint (2 :: int32))]
              = [0, 2147483648]"
    by (simp add: sh i0 extents_def split_axis_def axis_count_def dim_size_def)
  show ?thesis using wf v z o1 o2 ex by blast
qed

subsection \<open>The lifetime of the staging buffer\<close>

lemma host_progress:
  assumes p: "launch_progress inp num_split d h g n i j (a # acts, c)" and hg: "h \<noteq> g"
  shows "launch_progress inp num_split d h g n (Suc i) j (acts, host_act a c)"
proof -
  obtain P D S where d: "d = (P, D, S)" by (cases d) auto
  let ?A = "gpu_launch_acts inp num_split d h g n"
  have len: "length ?A = 7" by (simp add: gpu_launch_acts_def d)
  from p have dr: "a # acts = drop i ?A" by (simp add: launch_progress_def d)
  then have i: "i < 7" using len by (metis drop_all list.distinct(1) not_le)
  then have "i = 0 \<or> i = 1 \<or> i = 2 \<or> i = 3 \<or> i = 4 \<or> i = 5 \<or> i = 6" by arith
  then show ?thesis
  proof (elim disjE)
    assume "i = 0"
    with p dr show ?thesis
      by (auto simp add: launch_progress_def d gpu_launch_acts_def host_act_def Ref_def
          enqueued_def)
  next
    assume "i = 1"
    with p dr show ?thesis
      by (auto simp add: launch_progress_def d gpu_launch_acts_def host_act_def enqueued_def)
  next
    assume "i = 2"
    with p dr show ?thesis
      by (auto simp add: launch_progress_def d gpu_launch_acts_def host_act_def enqueued_def
          numeral_2_eq_2 less_Suc_eq_le le_Suc_eq)
  next
    assume "i = 3"
    with p dr show ?thesis
      by (auto simp add: launch_progress_def d gpu_launch_acts_def host_act_def enqueued_def
          numeral_3_eq_3 numeral_2_eq_2 le_Suc_eq)
  next
    assume "i = 4"
    with p dr show ?thesis
      by (auto simp add: launch_progress_def d gpu_launch_acts_def host_act_def enqueued_def
          CtxFailure_def)
  next
    assume "i = 5"
    with p dr hg show ?thesis
      by (auto simp add: launch_progress_def d gpu_launch_acts_def host_act_def enqueued_def
          Unref_def)
  next
    assume "i = 6"
    with p dr show ?thesis
      by (auto simp add: launch_progress_def d gpu_launch_acts_def host_act_def enqueued_def
          Unref_def)
  qed
qed

lemma kernel_write_temps:
  "temps (kernel_write inp num_split P D S ps q c) = temps c"
  by (simp add: kernel_write_def Let_def split: option.split)

lemma kernel_fold_temps:
  "temps (fold (kernel_write inp num_split P D S ps) qs c) = temps c"
  by (induction qs arbitrary: c) (simp_all add: kernel_write_temps)

lemma kernel_write_stream:
  "stream (kernel_write inp num_split P D S ps q c) = stream c"
  by (simp add: kernel_write_def Let_def split: option.split)

lemma kernel_fold_stream:
  "stream (fold (kernel_write inp num_split P D S ps) qs c) = stream c"
  by (induction qs arbitrary: c) (simp_all add: kernel_write_stream)

lemma device_progress:
  assumes p: "launch_progress inp num_split d h g n i j (acts, c)" and hg: "h \<noteq> g"
    and s: "stream c = op # ops"
  shows "launch_progress inp num_split d h g n i (Suc j) (acts, exec_op op (c\<lparr>stream := ops\<rparr>))"
proof -
  obtain P D S where d: "d = (P, D, S)" by (cases d) auto
  let ?O = "[ThenMemcpy g h n, ThenExecuteUnref h, SplitOpGPULaunch inp num_split P D S g]"
  from p s have dr: "op # ops = drop j (take (enqueued i) ?O)"
    by (simp add: launch_progress_def d)
  from p have je: "j \<le> enqueued i" by (simp add: launch_progress_def d)
  have e3: "enqueued i \<le> 3" by (simp add: enqueued_def)
  have "j < enqueued i"
  proof (rule ccontr)
    assume "\<not> j < enqueued i"
    then have "drop j (take (enqueued i) ?O) = []" by simp
    with dr show False by simp
  qed
  then have "(j = 0 \<and> 1 \<le> enqueued i) \<or> (j = 1 \<and> 2 \<le> enqueued i)
           \<or> (j = 2 \<and> enqueued i = 3)"
    using e3 by arith
  then show ?thesis
  proof (elim disjE conjE)
    assume j: "j = 0" and e: "1 \<le> enqueued i"
    then have i1: "1 \<le> i" by (auto simp add: enqueued_def)
    from e e3 have "enqueued i = 1 \<or> enqueued i = 2 \<or> enqueued i = 3" by arith
    with dr j have op: "op = ThenMemcpy g h n"
      and ops: "ops = drop 1 (take (enqueued i) ?O)"
      by auto
    show ?thesis
      using p hg j e i1
      by (auto simp add: launch_progress_def d op ops exec_op_def Let_def)
  next
    assume j: "j = 1" and e: "2 \<le> enqueued i"
    then have i1: "3 \<le> i" by (auto simp add: enqueued_def)
    from e e3 have "enqueued i = 2 \<or> enqueued i = 3" by arith
    with dr j have op: "op = ThenExecuteUnref h"
      and ops: "ops = drop 2 (take (enqueued i) ?O)"
      by (auto simp add: numeral_2_eq_2 numeral_3_eq_3)
    show ?thesis
      using p hg j e i1
      by (auto simp add: launch_progress_def d op ops exec_op_def Unref_def numeral_2_eq_2)
  next
    assume j: "j = 2" and e: "enqueued i = 3"
    with dr have op: "op = SplitOpGPULaunch inp num_split P D S g" and ops: "ops = []"
      by (auto simp add: numeral_2_eq_2 numeral_3_eq_3)
    show ?thesis
      using p hg j e
      by (auto simp add: launch_progress_def d op ops exec_op_def kernel_fold_temps
          kernel_fold_stream numeral_2_eq_2 numeral_3_eq_3)
  qed
qed

lemma reach_progress:
  assumes r: "gpu_reach s0 s" and hg: "h \<noteq> g"
    and p0: "launch_progress inp num_split d h g n 0 0 s0"
  shows "\<exists>i j. launch_progress inp num_split d h g n i j s"
  using r p0
proof (induction rule: gpu_reach.induct)
  case (start s)
  then show ?case by blast
next
  case (step s t u)
  then obtain i j where p: "launch_progress inp num_split d h g n i j t" by blast
  from step.hyps(2) show ?case
  proof (cases rule: gpu_step.cases)
    case (host a acts c)
    with p host_progress [OF _ hg] show ?thesis by blast
  next
    case (device c op ops acts)
    with p device_progress [OF _ hg] show ?thesis by blast
  qed
qed

lemma set_drop_take_subset:
  assumes "k \<le> j"
  shows "set (drop j (take e xs)) \<subseteq> set (drop k xs)"
proof -
  have "set (drop j (take e xs)) \<subseteq> set (drop j xs)"
    by (simp add: drop_take set_take_subset)
  also have "\<dots> \<subseteq> set (drop k xs)"
    using assms by (rule set_drop_subset_set_drop)
  finally show ?thesis .
qed

lemma progress_alive:
  assumes p: "launch_progress inp num_split d h g n i j (acts, c)"
  shows "ThenMemcpy g h n \<in> set (stream c) \<longrightarrow> 0 < refs (temps c ! h)"
    and "refs (temps c ! h) = 0 \<longrightarrow>
           acts = [] \<and> ThenMemcpy g h n \<notin> set (stream c)
           \<and> ThenExecuteUnref h \<notin> set (stream c)"
proof -
  obtain P D S where d: "d = (P, D, S)" by (cases d) auto
  let ?O = "[ThenMemcpy g h n, ThenExecuteUnref h, SplitOpGPULaunch inp num_split P D S g]"
  from p have s: "stream c = drop j (take (enqueued i) ?O)"
    and r: "refs (temps c ! h) + (if i = 7 then 1 else 0) + (if 2 \<le> j then 1 else 0)
            = (if 1 \<le> i then 2 else 1)"
    and a: "acts = drop i (gpu_launch_acts inp num_split d h g n)"
    and je: "j \<le> enqueued i"
    by (simp_all add: launch_progress_def d)
  have e0: "\<not> 1 \<le> i \<Longrightarrow> j = 0" using je by (simp add: enqueued_def)
  have m: "ThenMemcpy g h n \<in> set (stream c) \<Longrightarrow> j = 0 \<and> 1 \<le> i"
  proof -
    assume x: "ThenMemcpy g h n \<in> set (stream c)"
    have "j = 0"
    proof (rule ccontr)
      assume "j \<noteq> 0"
      then obtain j' where "j = Suc j'" by (cases j) auto
      then have "set (stream c) \<subseteq> set (drop 1 ?O)"
        unfolding s by (intro set_drop_take_subset) simp
      with x show False by auto
    qed
    moreover have "1 \<le> i"
    proof (rule ccontr)
      assume "\<not> 1 \<le> i"
      then have "enqueued i = 0" by (simp add: enqueued_def)
      with x s show False by simp
    qed
    ultimately show ?thesis by simp
  qed
  show "ThenMemcpy g h n \<in> set (stream c) \<longrightarrow> 0 < refs (temps c ! h)"
    using m r by (auto split: if_splits)
  show "refs (temps c ! h) = 0 \<longrightarrow>
           acts = [] \<and> ThenMemcpy g h n \<notin> set (stream c)
           \<and> ThenExecuteUnref h \<notin> set (stream c)"
  proof
    assume z: "refs (temps c ! h) = 0"
    with r e0 have "i = 7 \<and> 2 \<le> j"
      by (cases "i = 7"; cases "2 \<le> j"; cases "1 \<le> i") simp_all
    then have i7: "i = 7" and j2: "2 \<le> j" by simp_all
    have "acts = []" using a i7 by (simp add: gpu_launch_acts_def d)
    moreover have "set (stream c) \<subseteq> set (drop 2 ?O)"
      unfolding s using j2 by (rule set_drop_take_subset)
    then have "ThenMemcpy g h n \<notin> set (stream c) \<and> ThenExecuteUnref h \<notin> set (stream c)"
      by auto
    ultimately show "acts = [] \<and> ThenMemcpy g h n \<notin> set (stream c)
           \<and> ThenExecuteUnref h \<notin> set (stream c)" by simp
  qed
qed

lemma gpu_allocated_launch:
  assumes v: "valid_split num_split c" and g: "general_path a num_split c"
    and st: "status c = OK" and ok: "\<forall>q. alloc_ok c q"
    and nz: "collapsed_count num_split c \<noteq> 0"
  shows "Compute_GPU a num_split c
       = fold host_act
           (gpu_launch_acts (input1 c) num_split (SetDims (shape (input1 c)) (input0 c))
              (length (temps c)) (Suc (length (temps c))) (nat (sint num_split)))
           (gpu_allocated num_split c)"
    and "length (temps c) < length (temps (gpu_allocated num_split c))"
    and "refs (temps (gpu_allocated num_split c) ! length (temps c)) = 1"
    and "stream (gpu_allocated num_split c) = stream c"
proof -
  obtain P D S where sd: "SetDims (shape (input1 c)) (input0 c) = (P, D, S)"
    by (cases "SetDims (shape (input1 c)) (input0 c)") auto
  let ?n = "nat (sint num_split)"
  let ?T = "length (temps c)"
  let ?oshape = "set_dim (shape (input1 c)) (nat (sint (input0 c))) (scast (cdiv D num_split))"
  let ?c1 = "c\<lparr>temps := temps c @ [\<lparr>ptrs = replicate ?n None, refs = 1\<rparr>],
               allocs := Suc (allocs c)\<rparr>"
  let ?c2 = "?c1\<lparr>temps := temps ?c1 @ [\<lparr>ptrs = replicate ?n None, refs = 1\<rparr>],
               allocs := Suc (allocs ?c1)\<rparr>"
  have a1: "allocate_temp ?n c = Inr (?T, ?c1)"
    using ok by (simp add: allocate_temp_def)
  have a2: "allocate_temp ?n ?c1 = Inr (Suc ?T, ?c2)"
    using ok by (simp add: allocate_temp_def)
  have ok2: "\<forall>q. alloc_ok ?c2 q" using ok by simp
  have h2: "?T < length (temps ?c2)" by simp
  note lp = gpu_loop_closed [OF ok2 h2, of ?oshape 0 ?n, simplified]
  have ga: "gpu_allocated num_split c = fst (gpu_loop ?oshape ?T [0 ..< ?n] ?c2)"
    unfolding gpu_allocated_def sd prod.case Let_def a1 a2 sum.case ..
  have z: "P * cdiv D num_split * S \<noteq> 0" using nz by (simp add: collapsed_count_def sd)
  obtain c3 where c3: "gpu_loop ?oshape ?T [0 ..< ?n] ?c2 = (c3, True)"
    using lp by simp
  show "Compute_GPU a num_split c
       = fold host_act
           (gpu_launch_acts (input1 c) num_split (SetDims (shape (input1 c)) (input0 c))
              ?T (Suc ?T) ?n)
           (gpu_allocated num_split c)"
    unfolding ga c3 fst_conv
    unfolding Compute_GPU_def ComputeEasyCases_general [OF v g] prod.case Let_def sd a1 a2
      sum.case c3 bool.case
    using st z by simp
  show "?T < length (temps (gpu_allocated num_split c))"
    by (simp add: ga lp)
  show "refs (temps (gpu_allocated num_split c) ! ?T) = 1"
    by (simp add: ga lp nth_append)
  show "stream (gpu_allocated num_split c) = stream c"
    by (simp add: ga lp)
qed

lemma host_run: "gpu_reach (acts, c) ([], fold host_act acts c)"
proof -
  have "gpu_reach (pre @ acts, c0) (acts, fold host_act pre c0)
        \<Longrightarrow> gpu_reach (pre @ acts, c0) ([], fold host_act (pre @ acts) c0)" for pre c0
  proof (induction acts arbitrary: pre)
    case Nil
    then show ?case by simp
  next
    case (Cons a acts)
    have "gpu_step (a # acts, fold host_act pre c0) (acts, host_act a (fold host_act pre c0))"
      by (rule gpu_step.host)
    with Cons.prems
    have "gpu_reach (pre @ a # acts, c0) (acts, host_act a (fold host_act pre c0))"
      by (rule gpu_reach.step)
    then have "gpu_reach ((pre @ [a]) @ acts, c0) (acts, fold host_act (pre @ [a]) c0)"
      by simp
    from Cons.IH [OF this] show ?case by simp
  qed
  from this [of "[]" c] show ?thesis by (simp add: gpu_reach.start)
qed

text \<open>
  C9. On the GPU general path with outputs that are not empty, the executor runs
  the actions of \<open>gpu_launch_acts\<close> from the state \<open>gpu_allocated\<close>, and the stream
  receives the copy of the host array and then the callback that drops the
  reference to it. However the host and the stream interleave, in every state they
  reach the host array is alive while its copy is pending on the stream; when the
  array has been released, the host has returned and both the copy and the callback
  have executed.
\<close>

theorem staging_buffer_alive:
  assumes v: "valid_split num_split c" and g: "general_path a num_split c"
    and st: "status c = OK" and ok: "\<forall>q. alloc_ok c q" and s0: "stream c = []"
    and nz: "collapsed_count num_split c \<noteq> 0"
    and reach: "gpu_reach
        (gpu_launch_acts (input1 c) num_split (SetDims (shape (input1 c)) (input0 c))
           (length (temps c)) (Suc (length (temps c))) (nat (sint num_split)),
         gpu_allocated num_split c)
        (acts, c')"
  shows "Compute_GPU a num_split c
           = fold host_act
               (gpu_launch_acts (input1 c) num_split (SetDims (shape (input1 c)) (input0 c))
                  (length (temps c)) (Suc (length (temps c))) (nat (sint num_split)))
               (gpu_allocated num_split c)
       \<and> take 2 (stream (Compute_GPU a num_split c))
           = [ThenMemcpy (Suc (length (temps c))) (length (temps c)) (nat (sint num_split)),
              ThenExecuteUnref (length (temps c))]
       \<and> (ThenMemcpy (Suc (length (temps c))) (length (temps c)) (nat (sint num_split))
              \<in> set (stream c')
            \<longrightarrow> 0 < refs (temps c' ! length (temps c)))
       \<and> (refs (temps c' ! length (temps c)) = 0
            \<longrightarrow> acts = []
                \<and> ThenMemcpy (Suc (length (temps c))) (length (temps c)) (nat (sint num_split))
                     \<notin> set (stream c')
                \<and> ThenExecuteUnref (length (temps c)) \<notin> set (stream c'))"
proof -
  let ?T = "length (temps c)" and ?n = "nat (sint num_split)"
  let ?d = "SetDims (shape (input1 c)) (input0 c)"
  let ?A = "gpu_launch_acts (input1 c) num_split ?d ?T (Suc ?T) ?n"
  note ga = gpu_allocated_launch [OF v g st ok nz]
  obtain P D S where sd: "?d = (P, D, S)" by (cases ?d) auto
  have p0: "launch_progress (input1 c) num_split ?d ?T (Suc ?T) ?n 0 0
              (?A, gpu_allocated num_split c)"
    using ga(2,3,4) s0 by (simp add: launch_progress_def sd enqueued_def)
  have hg: "?T \<noteq> Suc ?T" by simp
  from reach_progress [OF reach hg p0]
  obtain i j where p: "launch_progress (input1 c) num_split ?d ?T (Suc ?T) ?n i j (acts, c')"
    by blast
  note al = progress_alive [OF p]
  have z: "P * cdiv D num_split * S \<noteq> 0" using nz by (simp add: collapsed_count_def sd)
  have "take 2 (stream (Compute_GPU a num_split c))
          = [ThenMemcpy (Suc ?T) ?T ?n, ThenExecuteUnref ?T]"
    unfolding Compute_GPU_general [OF v g st ok sd] using z s0 by simp
  with ga(1) al show ?thesis by blast
qed

theorem staging_buffer_alive_witness:
  "valid_split 2 (context_of [2, 6] 1 [0 ..< 12 :: nat])
   \<and> general_path (\<lambda>s. False) 2 (context_of [2, 6] 1 [0 ..< 12 :: nat])
   \<and> collapsed_count 2 (context_of [2, 6] 1 [0 ..< 12 :: nat]) = 6
   \<and> stream (Compute_GPU (\<lambda>s. False) 2 (context_of [2, 6] 1 [0 ..< 12 :: nat]))
       = [ThenMemcpy 1 0 2, ThenExecuteUnref 0,
          SplitOpGPULaunch \<lparr>shape = [2, 6], buf = 0, base = 0\<rparr> 2 2 6 1 1]
   \<and> 0 < refs (temps (Compute_GPU (\<lambda>s. False) 2 (context_of [2, 6] 1 [0 ..< 12 :: nat])) ! 0)"
proof -
  let ?c = "context_of [2, 6] 1 [0 ..< 12 :: nat]"
  let ?a = "\<lambda>s :: TensorShape. False"
  have v: "valid_split 2 ?c"
    by (simp add: valid_split_def context_of_def dims_def dim_size_def)
  have g: "general_path ?a 2 ?c"
    by (simp add: general_path_def)
  have ok: "\<forall>q. alloc_ok ?c q" and s0: "stream ?c = []" and st: "status ?c = OK"
    and tc: "temps ?c = []" and inp: "input1 ?c = \<lparr>shape = [2, 6], buf = 0, base = 0\<rparr>"
    and sh: "shape (input1 ?c) = [2, 6]" and i0: "input0 ?c = 1"
    by (simp_all add: context_of_def)
  have sd: "SetDims (shape (input1 ?c)) (input0 ?c) = (2, 6, 1)"
    unfolding sh i0 by code_simp
  have cc: "collapsed_count 2 ?c = 6"
    by (simp add: collapsed_count_def sd cdiv_def)
  have nz: "collapsed_count 2 ?c \<noteq> 0" by (simp add: cc)
  have per: "(2 :: int32) * cdiv 6 2 * 1 \<noteq> 0" by (simp add: cdiv_def)
  have sg: "stream (Compute_GPU ?a 2 ?c)
       = [ThenMemcpy 1 0 2, ThenExecuteUnref 0,
          SplitOpGPULaunch \<lparr>shape = [2, 6], buf = 0, base = 0\<rparr> 2 2 6 1 1]"
    unfolding Compute_GPU_general [OF v g st ok sd] using per by (simp add: s0 tc inp)
  have reach: "gpu_reach
        (gpu_launch_acts (input1 ?c) 2 (SetDims (shape (input1 ?c)) (input0 ?c))
           (length (temps ?c)) (Suc (length (temps ?c))) (nat (sint (2 :: int32))),
         gpu_allocated 2 ?c)
        ([], fold host_act
               (gpu_launch_acts (input1 ?c) 2 (SetDims (shape (input1 ?c)) (input0 ?c))
                  (length (temps ?c)) (Suc (length (temps ?c))) (nat (sint (2 :: int32))))
               (gpu_allocated 2 ?c))"
    by (rule host_run)
  note t = staging_buffer_alive [OF v g st ok s0 nz reach, unfolded tc]
  from t have e: "Compute_GPU ?a 2 ?c
      = fold host_act
               (gpu_launch_acts (input1 ?c) 2 (SetDims (shape (input1 ?c)) (input0 ?c))
                  (length ([] :: TempTensor list)) (Suc (length ([] :: TempTensor list)))
                  (nat (sint (2 :: int32))))
               (gpu_allocated 2 ?c)"
    by blast
  from t have "ThenMemcpy (Suc (length ([] :: TempTensor list))) (length ([] :: TempTensor list))
                 (nat (sint (2 :: int32))) \<in> set (stream (Compute_GPU ?a 2 ?c))
               \<longrightarrow> 0 < refs (temps (Compute_GPU ?a 2 ?c) ! length ([] :: TempTensor list))"
    unfolding e [symmetric] by blast
  then have "0 < refs (temps (Compute_GPU ?a 2 ?c) ! 0)"
    unfolding sg by simp
  with v g cc sg show ?thesis by blast
qed

end
